theory Spec2Isabelle
  imports Main
begin

section \<open>Characters and the character classes of the pattern language\<close>

text \<open>
  A Python \<open>str\<close> is a sequence of code points. A sentence is modelled as a \<open>string\<close>
  whose characters are the code points 0..255, one \<open>char\<close> per code point, so that
  \<open>length\<close> and list positions are Python's \<open>len\<close> and offsets. On that range the
  classes of the \<open>re\<close> module are: \<open>\d\<close> the ten ASCII digits, \<open>\s\<close> the twelve code
  points listed in \<open>bs_s\<close>, \<open>\w\<close> the characters listed in \<open>word_chars\<close>.
\<close>

definition d09 :: "char list" where
  "d09 = ''0123456789''"

definition bs_d :: "char list" where
  "bs_d = ''0123456789''"

definition bs_s :: "char list" where
  "bs_s = [CHR 0x09, CHR 0x0A, CHR 0x0B, CHR 0x0C, CHR 0x0D, CHR 0x1C, CHR 0x1D,
           CHR 0x1E, CHR 0x1F, CHR 0x20, CHR 0x85, CHR 0xA0]"

definition word_chars :: "char list" where
  "word_chars =
     ''0123456789'' @ ''ABCDEFGHIJKLMNOPQRSTUVWXYZ'' @ ''_'' @ ''abcdefghijklmnopqrstuvwxyz''
     @ [CHR 0xAA, CHR 0xB2, CHR 0xB3, CHR 0xB5, CHR 0xB9, CHR 0xBA, CHR 0xBC, CHR 0xBD, CHR 0xBE,
        CHR 0xC0, CHR 0xC1, CHR 0xC2, CHR 0xC3, CHR 0xC4, CHR 0xC5, CHR 0xC6, CHR 0xC7,
        CHR 0xC8, CHR 0xC9, CHR 0xCA, CHR 0xCB, CHR 0xCC, CHR 0xCD, CHR 0xCE, CHR 0xCF,
        CHR 0xD0, CHR 0xD1, CHR 0xD2, CHR 0xD3, CHR 0xD4, CHR 0xD5, CHR 0xD6,
        CHR 0xD8, CHR 0xD9, CHR 0xDA, CHR 0xDB, CHR 0xDC, CHR 0xDD, CHR 0xDE, CHR 0xDF,
        CHR 0xE0, CHR 0xE1, CHR 0xE2, CHR 0xE3, CHR 0xE4, CHR 0xE5, CHR 0xE6, CHR 0xE7,
        CHR 0xE8, CHR 0xE9, CHR 0xEA, CHR 0xEB, CHR 0xEC, CHR 0xED, CHR 0xEE, CHR 0xEF,
        CHR 0xF0, CHR 0xF1, CHR 0xF2, CHR 0xF3, CHR 0xF4, CHR 0xF5, CHR 0xF6,
        CHR 0xF8, CHR 0xF9, CHR 0xFA, CHR 0xFB, CHR 0xFC, CHR 0xFD, CHR 0xFE, CHR 0xFF]"

definition is_word :: "char \<Rightarrow> bool" where
  "is_word c = (c \<in> set word_chars)"

text \<open>The other case of an ASCII letter; every other character is its own.\<close>

definition ascii_lowercase :: "char list" where
  "ascii_lowercase = ''abcdefghijklmnopqrstuvwxyz''"

definition ascii_uppercase :: "char list" where
  "ascii_uppercase = ''ABCDEFGHIJKLMNOPQRSTUVWXYZ''"

definition swapcase :: "char \<Rightarrow> char" where
  "swapcase c =
     (case map_of (zip ascii_lowercase ascii_uppercase) c of
        Some u \<Rightarrow> u
      | None \<Rightarrow> (case map_of (zip ascii_uppercase ascii_lowercase) c of
                  Some l \<Rightarrow> l
                | None \<Rightarrow> c))"

section \<open>Patterns\<close>

text \<open>
  The syntax of the patterns the module compiles. \<open>Cls cs\<close> is one character out of
  \<open>cs\<close> (a literal is a class of one), \<open>Star cs\<close> and \<open>Plus cs\<close> are the greedy
  repetitions \<open>[cs]*\<close> and \<open>[cs]+\<close> (the module repeats character classes only),
  \<open>Opt\<close> is the greedy \<open>?\<close>, \<open>Grp n r\<close> is \<open>(?P<n>r)\<close>, \<open>NotAhead r\<close> is \<open>(?!r)\<close>
  and \<open>WordB\<close> is \<open>\b\<close>. An unnamed pair of parentheses only groups: it has no entry
  in \<open>groupdict()\<close>, and is written as its body.
\<close>

datatype regex =
    Eps
  | Cls "char list"
  | Seq regex regex
  | Alt regex regex
  | Opt regex
  | Star "char list"
  | Plus "char list"
  | Grp string regex
  | NotAhead regex
  | WordB

text \<open>
  A pattern string is a list of items; Python's \<open>+\<close> on pattern strings is \<open>@\<close>, and
  \<open>seqs\<close> is the sequence the list denotes.
\<close>

fun seqs :: "regex list \<Rightarrow> regex" where
  "seqs [] = Eps"
| "seqs (r # rs) = Seq r (seqs rs)"

fun alts :: "regex list \<Rightarrow> regex" where
  "alts [] = NotAhead Eps"
| "alts [r] = r"
| "alts (r # rs) = Alt r (alts rs)"

definition lit :: "string \<Rightarrow> regex" where
  "lit w = seqs (map (\<lambda>c. Cls [c]) w)"

definition named :: "string \<Rightarrow> regex list \<Rightarrow> regex list" where
  "named n rs = [Grp n (seqs rs)]"

text \<open>
  A compiled pattern: the \<open>re.IGNORECASE\<close> flag and the syntax. With the flag a class
  accepts a character when it holds the character or its other case.
\<close>

type_synonym pattern = "bool \<times> regex"

definition compile :: "regex list \<Rightarrow> pattern" where
  "compile rs = (False, seqs rs)"

definition compile_ignorecase :: "regex list \<Rightarrow> pattern" where
  "compile_ignorecase rs = (True, seqs rs)"

definition in_class :: "bool \<Rightarrow> char list \<Rightarrow> char \<Rightarrow> bool" where
  "in_class ic cs c = (if c \<in> set cs then True else if ic then swapcase c \<in> set cs else False)"

section \<open>Matching\<close>

text \<open>
  The backtracking matcher of \<open>re\<close>, as the list of all ways a pattern matches from a
  position, in the order the engine tries them (the first alternative first, the
  longest repetition first, an optional part first taken then skipped). A state is the
  position reached and the named groups set on the way, the last one set first.
\<close>

type_synonym groups = "(string \<times> string) list"
type_synonym mstate = "nat \<times> groups"

definition slice :: "string \<Rightarrow> nat \<Rightarrow> nat \<Rightarrow> string" where
  "slice s a b = take (b - a) (drop a s)"

definition wordb :: "string \<Rightarrow> nat \<Rightarrow> bool" where
  "wordb s p =
     ((0 < p \<and> p - 1 < length s \<and> is_word (s ! (p - 1))) \<noteq> (p < length s \<and> is_word (s ! p)))"

definition run_len :: "bool \<Rightarrow> char list \<Rightarrow> string \<Rightarrow> nat \<Rightarrow> nat" where
  "run_len ic cs s p = length (takeWhile (in_class ic cs) (drop p s))"

fun rmatch :: "bool \<Rightarrow> regex \<Rightarrow> string \<Rightarrow> mstate \<Rightarrow> mstate list" where
  "rmatch ic Eps s st = [st]"
| "rmatch ic (Cls cs) s (p, g) =
     (if p < length s \<and> in_class ic cs (s ! p) then [(Suc p, g)] else [])"
| "rmatch ic (Seq a b) s st = concat (map (rmatch ic b s) (rmatch ic a s st))"
| "rmatch ic (Alt a b) s st = rmatch ic a s st @ rmatch ic b s st"
| "rmatch ic (Opt a) s st = rmatch ic a s st @ [st]"
| "rmatch ic (Star cs) s (p, g) = map (\<lambda>k. (p + k, g)) (rev [0..<Suc (run_len ic cs s p)])"
| "rmatch ic (Plus cs) s (p, g) = map (\<lambda>k. (p + k, g)) (rev [1..<Suc (run_len ic cs s p)])"
| "rmatch ic (Grp n a) s (p, g) = map (\<lambda>(e, g'). (e, (n, slice s p e) # g')) (rmatch ic a s (p, g))"
| "rmatch ic (NotAhead a) s st = (if rmatch ic a s st = [] then [st] else [])"
| "rmatch ic WordB s (p, g) = (if wordb s p then [(p, g)] else [])"


section \<open>The pattern catalogue\<close>

text \<open>fractional seconds\<close>

definition str_frac :: "regex list" where
  "str_frac = [Cls ''.:'', Plus d09]"

text \<open>hours, 12-hour clock\<close>

definition str_h12 :: "regex list" where
  "str_h12 = [Alt (seqs [Opt (Cls ''0''), Cls ''123456789'']) (seqs [Cls ''1'', Cls ''012''])]"

text \<open>hours, 24-hour clock\<close>

definition str_h24 :: "regex list" where
  "str_h24 = [Alt (seqs [Cls ''01'', Cls d09]) (seqs [Cls ''2'', Cls ''01234''])]"

text \<open>am or pm\<close>

definition str_am_pm :: "regex list" where
  "str_am_pm = [Cls ''aApP'', Opt (Cls ''.''), Cls ''mM'', Opt (Cls ''.'')]"

text \<open>minutes\<close>

definition str_MM :: "regex list" where
  "str_MM = [Cls ''012345'', Cls d09]"

text \<open>world time zones (with Z for Zulu)\<close>

definition time_zone_abbrevs :: "string list" where
  "time_zone_abbrevs = [
    ''ACDT'', ''ACST'', ''ACT'', ''ACWST'', ''ADT'', ''AEDT'', ''AEST'', ''AFT'', ''AKDT'',
    ''AKST'', ''AMST'', ''AMT'', ''ART'', ''AST'', ''AWST'', ''AZOST'', ''AZOT'', ''AZT'',
    ''BDT'', ''BIOT'', ''BIT'', ''BOT'', ''BRST'', ''BRT'', ''BST'', ''BTT'', ''CAT'',
    ''CCT'', ''CDT'', ''CEST'', ''CET'', ''CHADT'', ''CHAST'', ''CHOT'', ''CHOST'',
    ''CHST'', ''CHUT'', ''CIST'', ''CIT'', ''CKT'', ''CLST'', ''CLT'', ''COST'', ''COT'',
    ''CST'', ''CT'', ''CVT'', ''CWST'', ''CXT'', ''DAVT'', ''DDUT'', ''DFT'', ''EASST'',
    ''EAST'', ''EAT'', ''ECT'', ''EDT'', ''EEST'', ''EET'', ''EGST'', ''EGT'', ''EIT'',
    ''EST'', ''FET'', ''FJT'', ''FKST'', ''FKT'', ''FNT'', ''GALT'', ''GAMT'', ''GET'',
    ''GFT'', ''GILT'', ''GIT'', ''GMT'', ''GST'', ''GYT'', ''HDT'', ''HAEC'', ''HST'',
    ''HKT'', ''HMT'', ''HOVST'', ''HOVT'', ''ICT'', ''IDLW'', ''IDT'', ''IOT'', ''IRDT'',
    ''IRKT'', ''IRST'', ''IST'', ''JST'', ''KGT'', ''KOST'', ''KRAT'', ''KST'', ''LHST'',
    ''LINT'', ''MAGT'', ''MART'', ''MAWT'', ''MDT'', ''MET'', ''MEST'', ''MHT'', ''MIST'',
    ''MIT'', ''MMT'', ''MSK'', ''MST'', ''MUT'', ''MVT'', ''MYT'', ''NCT'', ''NDT'',
    ''NFT'', ''NPT'', ''NST'', ''NT'', ''NUT'', ''NZDT'', ''NZST'', ''OMST'', ''ORAT'',
    ''PDT'', ''PET'', ''PETT'', ''PGT'', ''PHOT'', ''PHT'', ''PKT'', ''PMDT'', ''PMST'',
    ''PONT'', ''PST'', ''PYST'', ''PYT'', ''RET'', ''ROTT'', ''SAKT'', ''SAMT'', ''SAST'',
    ''SBT'', ''SCT'', ''SDT'', ''SGT'', ''SLST'', ''SRET'', ''SRT'', ''SST'', ''SYOT'',
    ''THAT'', ''THA'', ''TFT'', ''TJT'', ''TKT'', ''TLT'', ''TMT'', ''TRT'', ''TOT'',
    ''TVT'', ''ULAST'', ''ULAT'', ''USZ1'', ''UTC'', ''UYST'', ''UYT'', ''UZT'', ''VET'',
    ''VLAT'', ''VOLT'', ''VOST'', ''VUT'', ''WAKT'', ''WAST'', ''WAT'', ''WEST'', ''WET'',
    ''WIT'', ''WST'', ''YAKT'', ''YEKT'', ''Z'']"

definition str_time_zone_abbrev :: "regex list" where
  "str_time_zone_abbrev = [alts (map lit time_zone_abbrevs)]"

text \<open>separator, colon only\<close>

definition str_sep :: "regex list" where
  "str_sep = [Cls '':'']"

text \<open>t or T, to indicate time\<close>

definition str_t :: "regex list" where
  "str_t = [WordB, Opt (Cls ''tT'')]"

subsection \<open>12 hour notation\<close>

definition str_h12_am_pm :: "regex list" where
  "str_h12_am_pm = [WordB] @ named ''hours'' str_h12 @ [Star bs_s] @ named ''am_pm'' str_am_pm"

definition str_h12m :: "regex list" where
  "str_h12m = [WordB] @ named ''hours'' str_h12 @ str_sep
              @ named ''minutes'' (str_MM @ [NotAhead (Cls bs_d)])"

definition str_h12m_am_pm :: "regex list" where
  "str_h12m_am_pm = [WordB] @ named ''hours'' str_h12 @ str_sep
                    @ named ''minutes'' str_MM @ [Star bs_s]
                    @ named ''am_pm'' (str_am_pm @ [NotAhead (Cls bs_d)])"

definition str_h12ms_am_pm :: "regex list" where
  "str_h12ms_am_pm = [WordB] @ named ''hours'' str_h12 @ str_sep
                     @ named ''minutes'' str_MM @ str_sep
                     @ named ''seconds'' str_MM @ [Star bs_s]
                     @ named ''am_pm'' str_am_pm"

definition str_h12msf_am_pm :: "regex list" where
  "str_h12msf_am_pm = [WordB] @ named ''hours'' str_h12 @ [Cls '':'']
                      @ named ''minutes'' str_MM @ [Cls '':'']
                      @ named ''seconds'' str_MM
                      @ named ''frac'' str_frac @ [Star bs_s]
                      @ named ''am_pm'' str_am_pm"

subsection \<open>24 hour notation\<close>

definition str_h24m :: "regex list" where
  "str_h24m = str_t
              @ named ''hours'' str_h24 @ str_sep
              @ named ''minutes'' (str_MM @ [NotAhead (Cls bs_d)])"

definition str_h24m_no_colon :: "regex list" where
  "str_h24m_no_colon = str_t
                       @ named ''hours'' str_h24
                       @ named ''minutes'' (str_MM @ [NotAhead (Cls bs_d)])"

definition str_h24ms :: "regex list" where
  "str_h24ms = str_t
               @ named ''hours'' str_h24 @ str_sep
               @ named ''minutes'' str_MM @ str_sep
               @ named ''seconds'' (str_MM @ [NotAhead (Cls bs_d)])"

definition str_h24ms_no_colon :: "regex list" where
  "str_h24ms_no_colon = str_t
                        @ named ''hours'' str_h24
                        @ named ''minutes'' str_MM
                        @ named ''seconds'' (str_MM @ [NotAhead (Cls bs_d)])"

definition str_h24ms_with_timezone :: "regex list" where
  "str_h24ms_with_timezone = str_t
                             @ named ''hours'' str_h24
                             @ named ''minutes'' str_MM
                             @ named ''seconds'' str_MM @ [Star bs_s]
                             @ named ''timezone'' str_time_zone_abbrev"

definition str_gmt_delta :: "regex list" where
  "str_gmt_delta = [Opt (Alt (lit ''GMT'') (lit ''UTC'')), Cls ''-+''] @ str_h24
                   @ [Opt (Cls '':'')] @ [Opt (seqs str_MM)]"

definition str_h24ms_with_gmt_delta :: "regex list" where
  "str_h24ms_with_gmt_delta = str_t
                              @ named ''hours'' str_h24
                              @ named ''minutes'' str_MM
                              @ named ''seconds'' str_MM @ [Star bs_s]
                              @ named ''gmt_delta'' str_gmt_delta"

text \<open>decipher the gmt_delta components\<close>

definition str_gmt :: "regex list" where
  "str_gmt = [Opt (Alt (lit ''GMT'') (lit ''UTC''))] @ named ''gmt_sign'' [Cls ''-+'']
             @ named ''gmt_hours'' str_h24 @ [Opt (Cls '':'')]
             @ [Opt (seqs (named ''gmt_minutes'' str_MM))]"

definition str_h24msf :: "regex list" where
  "str_h24msf = str_t
                @ named ''hours'' str_h24 @ str_sep
                @ named ''minutes'' str_MM @ str_sep
                @ named ''seconds'' str_MM
                @ named ''frac'' str_frac"

subsection \<open>ISO8601 formats\<close>

definition str_iso_hh :: "regex list" where
  "str_iso_hh = [Alt (seqs [Cls ''01'', Cls d09]) (seqs [Cls ''2'', Cls ''01234''])]"

definition str_iso_mm :: "regex list" where
  "str_iso_mm = [Cls ''012345'', Cls d09]"

definition str_iso_ss :: "regex list" where
  "str_iso_ss = [Alt (seqs [Cls ''012345'', Cls d09]) (lit ''60'')]"

definition str_iso_zone_hm :: "regex list" where
  "str_iso_zone_hm = named ''gmt_hours'' str_iso_hh
                     @ [Opt (seqs ([Opt (Cls '':'')] @ named ''gmt_minutes'' str_iso_mm))]"

definition str_iso_zone :: "regex list" where
  "str_iso_zone = [Alt (seqs (named ''timezone'' [Cls ''Z'']))
                       (seqs (named ''gmt_sign'' [Cls ''-+''] @ str_iso_zone_hm))]"

definition str_iso_hh_only :: "regex list" where
  "str_iso_hh_only = [WordB] @ named ''hours'' (str_iso_hh @ [NotAhead (Cls bs_d)])
                     @ [Opt (seqs (named ''gmt_delta'' str_iso_zone))]"

definition str_iso_hhmm_only :: "regex list" where
  "str_iso_hhmm_only = [WordB] @ named ''hours'' str_iso_hh
                       @ named ''minutes'' (str_iso_mm @ [NotAhead (Cls bs_d)])
                       @ [Opt (seqs (named ''gmt_delta'' str_iso_zone))]"

definition str_iso_hms :: "regex list" where
  "str_iso_hms = [WordB] @ named ''hours'' str_iso_hh @ [Opt (Cls '':'')]
                 @ named ''minutes'' str_iso_mm @ [Opt (Cls '':'')]
                 @ named ''seconds'' str_iso_ss
                 @ [Opt (seqs (named ''frac'' [Cls ''.'', Plus bs_d]))]"

definition str_iso_time :: "regex list" where
  "str_iso_time = str_iso_hms @ [Opt (seqs (named ''gmt_delta'' str_iso_zone))]"

subsection \<open>The compiled patterns\<close>

definition regex_h12_am_pm :: pattern where "regex_h12_am_pm = compile str_h12_am_pm"
definition regex_h12m :: pattern where "regex_h12m = compile str_h12m"
definition regex_h12m_am_pm :: pattern where "regex_h12m_am_pm = compile str_h12m_am_pm"
definition regex_h12ms_am_pm :: pattern where "regex_h12ms_am_pm = compile str_h12ms_am_pm"
definition regex_h12msf_am_pm :: pattern where "regex_h12msf_am_pm = compile str_h12msf_am_pm"
definition regex_h24m :: pattern where "regex_h24m = compile str_h24m"
definition regex_h24m_no_colon :: pattern where "regex_h24m_no_colon = compile str_h24m_no_colon"
definition regex_h24ms :: pattern where "regex_h24ms = compile str_h24ms"
definition regex_h24ms_no_colon :: pattern where "regex_h24ms_no_colon = compile str_h24ms_no_colon"
definition regex_h24ms_with_timezone :: pattern where
  "regex_h24ms_with_timezone = compile_ignorecase str_h24ms_with_timezone"
definition regex_gmt :: pattern where "regex_gmt = compile str_gmt"
definition regex_h24ms_with_gmt_delta :: pattern where
  "regex_h24ms_with_gmt_delta = compile_ignorecase str_h24ms_with_gmt_delta"
definition regex_h24msf :: pattern where "regex_h24msf = compile str_h24msf"
definition regex_iso_hh :: pattern where "regex_iso_hh = compile str_iso_hh_only"
definition regex_iso_hhmm :: pattern where "regex_iso_hhmm = compile str_iso_hhmm_only"
definition regex_iso_time :: pattern where "regex_iso_time = compile str_iso_time"

definition regexes :: "pattern list" where
  "regexes = [
     regex_iso_hhmm,
     regex_iso_hh,
     regex_iso_time,
     regex_h24ms_with_gmt_delta,
     regex_h24ms_with_timezone,
     regex_h24ms_no_colon,
     regex_h24m_no_colon,
     regex_h12msf_am_pm,
     regex_h12ms_am_pm,
     regex_h12m_am_pm,
     regex_h12_am_pm,
     regex_h24msf,
     regex_h24ms,
     regex_h24m,
     regex_h12m]"

text \<open>match (), {}, and []\<close>

definition str_brackets :: "char list" where
  "str_brackets = ''(){}[]''"


section \<open>The interface of the pattern library\<close>

datatype error = AssertionError | ValueError | IndexError

text \<open>A match object: \<open>start()\<close>, \<open>end()\<close> and the named groups that took part.\<close>

type_synonym match = "nat \<times> nat \<times> groups"

text \<open>No way of matching moves backwards or past the end of the string.\<close>

lemma run_len_le: "p + run_len ic cs s p \<le> max p (length s)"
proof -
  have "length (takeWhile (in_class ic cs) (drop p s)) \<le> length (drop p s)"
    by (rule length_takeWhile_le)
  then show ?thesis by (simp add: run_len_def)
qed

lemma rmatch_bounds:
  "(e, g') \<in> set (rmatch ic r s (p, g)) \<Longrightarrow> p \<le> e \<and> e \<le> max p (length s)"
proof (induction r arbitrary: p g e g')
  case (Seq a b)
  then obtain m gm where 1: "(m, gm) \<in> set (rmatch ic a s (p, g))"
    and 2: "(e, g') \<in> set (rmatch ic b s (m, gm))" by auto
  from Seq.IH(1)[OF 1] Seq.IH(2)[OF 2] show ?case by (auto simp: max_def split: if_splits)
next
  case (Star cs)
  then show ?case using run_len_le[of p ic cs s] by auto
next
  case (Plus cs)
  then show ?case using run_len_le[of p ic cs s] by auto
next
  case (NotAhead r)
  then show ?case by (auto split: if_splits)
qed (auto split: if_splits)

text \<open>\<open>regex.match(string)\<close>: the first way of matching from position 0.\<close>

definition re_match :: "pattern \<Rightarrow> string \<Rightarrow> match option" where
  "re_match pat s =
     (case rmatch (fst pat) (snd pat) s (0, []) of [] \<Rightarrow> None | (e, g) # _ \<Rightarrow> Some (0, e, g))"

text \<open>\<open>regex.search(string)\<close>: the first way of matching from the leftmost position that has one.\<close>

function search_from :: "bool \<Rightarrow> regex \<Rightarrow> string \<Rightarrow> nat \<Rightarrow> match option" where
  "search_from ic r s p =
     (if length s < p then None
      else (case rmatch ic r s (p, []) of
              [] \<Rightarrow> search_from ic r s (Suc p)
            | (e, g) # _ \<Rightarrow> Some (p, e, g)))"
  by pat_completeness auto
termination
  by (relation "measure (\<lambda>(ic, r, s, p). Suc (length s) - p)") auto

definition re_search :: "pattern \<Rightarrow> string \<Rightarrow> match option" where
  "re_search pat s = search_from (fst pat) (snd pat) s 0"

text \<open>
  \<open>regex.finditer(string)\<close>: the matches of a left-to-right sweep, each search starting
  where the last match ended. After an empty match the engine must advance: at the same
  position it accepts only a way of matching that is not empty.
\<close>

function finditer_from :: "bool \<Rightarrow> regex \<Rightarrow> string \<Rightarrow> nat \<Rightarrow> bool \<Rightarrow> match list" where
  "finditer_from ic r s p must_advance =
     (if length s < p then []
      else (case filter (\<lambda>(e, g). \<not> (must_advance \<and> e = p)) (rmatch ic r s (p, [])) of
              [] \<Rightarrow> finditer_from ic r s (Suc p) False
            | (e, g) # _ \<Rightarrow> (p, e, g) # finditer_from ic r s e (e = p)))"
  by pat_completeness auto
termination
proof (relation "measure (\<lambda>(ic, r, s, p, a). 2 * (Suc (length s) - p) + (if a then 0 else 1))",
       goal_cases)
  case 1
  show ?case by simp
next
  case (2 ic r s p a)
  then show ?case by auto
next
  case (3 ic r s p a x xs e g)
  then have "(e, g) \<in> set (filter (\<lambda>(e, g). \<not> (a \<and> e = p)) (rmatch ic r s (p, [])))"
    by simp
  then have m: "(e, g) \<in> set (rmatch ic r s (p, []))" and na: "\<not> (a \<and> e = p)"
    by auto
  from rmatch_bounds[OF m] have "p \<le> e" by simp
  with na 3(1) show ?case by auto
qed

definition finditer :: "pattern \<Rightarrow> string \<Rightarrow> match list" where
  "finditer pat s = finditer_from (fst pat) (snd pat) s 0 False"

text \<open>The names of the groups of a pattern, in the order they open.\<close>

fun group_names :: "regex \<Rightarrow> string list" where
  "group_names Eps = []"
| "group_names (Cls cs) = []"
| "group_names (Seq a b) = group_names a @ group_names b"
| "group_names (Alt a b) = group_names a @ group_names b"
| "group_names (Opt a) = group_names a"
| "group_names (Star cs) = []"
| "group_names (Plus cs) = []"
| "group_names (Grp n a) = n # group_names a"
| "group_names (NotAhead a) = group_names a"
| "group_names WordB = []"

text \<open>\<open>match.groupdict()\<close>: every named group, \<open>None\<close> for one that took no part.\<close>

definition groupdict :: "pattern \<Rightarrow> match \<Rightarrow> (string \<times> string option) list" where
  "groupdict pat m = map (\<lambda>n. (n, map_of (snd (snd m)) n)) (group_names (snd pat))"

text \<open>
  \<open>int(v)\<close> on the strings that reach it, which are ASCII decimal numerals; any other
  string is taken to raise (Python accepts a few more forms, such as a sign).
\<close>

definition digit_val :: "char \<Rightarrow> int" where
  "digit_val c = int (length (takeWhile (\<lambda>d. d \<noteq> c) d09))"

definition py_int :: "string \<Rightarrow> error + int" where
  "py_int v =
     (if v \<noteq> [] \<and> list_all (\<lambda>c. c \<in> set d09) v
      then Inr (foldl (\<lambda>a c. 10 * a + digit_val c) 0 v)
      else Inl ValueError)"

definition py_nth :: "'a list \<Rightarrow> nat \<Rightarrow> error + 'a" where
  "py_nth xs i = (if i < length xs then Inr (xs ! i) else Inl IndexError)"


section \<open>Candidates and overlap resolution\<close>

record candidate =
  cand_start :: nat
  cand_end :: nat
  match_text :: string
  cand_regex :: pattern

text \<open>Determine if intervals [a1, b1) and [a2, b2) overlap at all.\<close>

definition has_overlap :: "nat \<Rightarrow> nat \<Rightarrow> nat \<Rightarrow> nat \<Rightarrow> error + bool" where
  "has_overlap a1 b1 a2 b2 =
     (if \<not> a1 \<le> b1 then Inl AssertionError
      else if \<not> a2 \<le> b2 then Inl AssertionError
      else if b2 \<le> a1 then Inr False
      else if a2 \<ge> b1 then Inr False
      else Inr True)"

text \<open>
  The inner loop of \<open>_remove_overlap\<close>, over the positions \<open>j\<close> it visits. Its state is
  \<open>(start_i, end_i, len_i, candidate_index, overlaps)\<close>.
\<close>

type_synonym scan_state = "nat \<times> nat \<times> int \<times> nat \<times> nat list"

fun inner_loop :: "candidate list \<Rightarrow> nat list \<Rightarrow> nat list \<Rightarrow> scan_state \<Rightarrow> error + scan_state" where
  "inner_loop candidates indices [] st = Inr st"
| "inner_loop candidates indices (j # js) (start_i, end_i, len_i, candidate_index, overlaps) =
     (case py_nth indices j of
        Inl e \<Rightarrow> Inl e
      | Inr index_j \<Rightarrow>
          (case py_nth candidates index_j of
             Inl e \<Rightarrow> Inl e
           | Inr cj \<Rightarrow>
               (let start_j = cand_start cj;
                    end_j = cand_end cj;
                    len_j = int end_j - int start_j
                in case has_overlap start_i end_i start_j end_j of
                     Inl e \<Rightarrow> Inl e
                   | Inr False \<Rightarrow>
                       inner_loop candidates indices js
                         (start_i, end_i, len_i, candidate_index, overlaps)
                   | Inr True \<Rightarrow>
                       (if len_j > len_i
                        then inner_loop candidates indices js
                               (start_j, end_j, len_j, index_j, overlaps @ [j])
                        else inner_loop candidates indices js
                               (start_i, end_i, len_i, candidate_index, overlaps @ [j])))))"

lemma inner_loop_overlaps:
  "inner_loop candidates indices js (s, e, l, c, ov) = Inr (s', e', l', c', ov')
   \<Longrightarrow> set ov \<subseteq> set ov'"
proof (induction js arbitrary: s e l c ov)
  case Nil
  then show ?case by simp
next
  case (Cons j js)
  from Cons.prems show ?case
    by (auto simp: Let_def split: sum.splits bool.splits if_splits dest!: Cons.IH)
qed

lemma filter_drops_member:
  assumes "k < n" and "k \<in> set ov"
  shows "length (filter (\<lambda>k. k \<notin> set ov) [0..<n]) < n"
proof -
  have "k \<in> set [0..<n]" using assms(1) by simp
  then have "length (filter (\<lambda>k. k \<notin> set ov) [0..<n]) < length [0..<n]"
    using assms(2) by (intro length_filter_less) auto
  then show ?thesis by simp
qed

text \<open>
  The outer loop: one pass for each winner. \<open>i\<close> is 0 in every pass (the source sets
  it to 0 before the loop and again at the end of each pass).
\<close>

function remove_overlap_loop ::
  "candidate list \<Rightarrow> nat list \<Rightarrow> candidate list \<Rightarrow> error + candidate list" where
  "remove_overlap_loop candidates indices results =
     (let i = 0 in
      if i < length indices then
        (case py_nth indices i of
           Inl e \<Rightarrow> Inl e
         | Inr index_i \<Rightarrow>
             (case py_nth candidates index_i of
                Inl e \<Rightarrow> Inl e
              | Inr ci \<Rightarrow>
                  (case inner_loop candidates indices [Suc i..<length indices]
                          (cand_start ci, cand_end ci, int (cand_end ci) - int (cand_start ci),
                           index_i, [i]) of
                     Inl e \<Rightarrow> Inl e
                   | Inr (start_i, end_i, len_i, candidate_index, overlaps) \<Rightarrow>
                       (case py_nth candidates candidate_index of
                          Inl e \<Rightarrow> Inl e
                        | Inr winner \<Rightarrow>
                            (if length (filter (\<lambda>k. k \<notin> set overlaps) [0..<length indices]) = 0
                             then Inr (results @ [winner])
                             else remove_overlap_loop candidates
                                    (map (\<lambda>k. indices ! k)
                                       (filter (\<lambda>k. k \<notin> set overlaps) [0..<length indices]))
                                    (results @ [winner]))))))
      else Inr results)"
  by pat_completeness auto
termination
proof (relation "measure (\<lambda>(candidates, indices, results). length indices)", goal_cases)
  case 1
  show ?case by simp
next
  case (2 candidates indices results i index_i ci st start_i rest1 end_i rest2 len_i rest3
          candidate_index overlaps winner)
  then have "inner_loop candidates indices [Suc 0..<length indices]
               (cand_start ci, cand_end ci, int (cand_end ci) - int (cand_start ci), index_i, [0])
             = Inr (start_i, end_i, len_i, candidate_index, overlaps)"
    by simp
  then have "0 \<in> set overlaps"
    using inner_loop_overlaps by fastforce
  moreover from 2 have "0 < length indices" by simp
  ultimately show ?case
    using filter_drops_member[of 0 "length indices" overlaps] by simp
qed

definition remove_overlap :: "candidate list \<Rightarrow> error + candidate list" where
  "remove_overlap candidates = remove_overlap_loop candidates [0..<length candidates] []"

section \<open>The sentence, the scan and the records\<close>

text \<open>erase [], {}, or () from the sentence\<close>

definition clean_sentence :: "string \<Rightarrow> string" where
  "clean_sentence sentence = map (\<lambda>c. if c \<in> set str_brackets then CHR '' '' else c) sentence"

record TimeValue =
  tv_text :: string
  tv_start :: nat
  tv_end :: nat
  hours :: "int option"
  minutes :: "int option"
  seconds :: "int option"
  fractional_seconds :: "string option"
  am_pm :: "string option"
  timezone :: "string option"
  gmt_delta_sign :: "string option"
  gmt_delta_hours :: "int option"
  gmt_delta_minutes :: "int option"

definition STR_AM :: string where "STR_AM = ''am''"
definition STR_PM :: string where "STR_PM = ''pm''"

text \<open>The local variables of one pass of the loop over the pruned candidates.\<close>

record locals =
  int_hours :: "int option"
  int_minutes :: "int option"
  int_seconds :: "int option"
  frac_seconds :: "string option"
  v_am_pm :: "string option"
  v_timezone :: "string option"
  gmt_delta :: "string option"
  v_gmt_delta_sign :: "string option"
  v_gmt_delta_hours :: "int option"
  v_gmt_delta_minutes :: "int option"

definition empty_locals :: locals where
  "empty_locals = \<lparr>int_hours = None, int_minutes = None, int_seconds = None,
                    frac_seconds = None, v_am_pm = None, v_timezone = None, gmt_delta = None,
                    v_gmt_delta_sign = None, v_gmt_delta_hours = None,
                    v_gmt_delta_minutes = None\<rparr>"

text \<open>A loop whose body may raise.\<close>

fun for_each :: "('s \<Rightarrow> 'a \<Rightarrow> error + 's) \<Rightarrow> 'a list \<Rightarrow> 's \<Rightarrow> error + 's" where
  "for_each f [] st = Inr st"
| "for_each f (x # xs) st = (case f st x of Inl e \<Rightarrow> Inl e | Inr st' \<Rightarrow> for_each f xs st')"

text \<open>The body of the loop over the groups of the offset-decomposition match.\<close>

fun gmt_item :: "locals \<Rightarrow> string \<times> string option \<Rightarrow> error + locals" where
  "gmt_item l (k2, None) = Inr l"
| "gmt_item l (k2, Some v2) =
     (if k2 = ''gmt_sign'' then Inr (l\<lparr>v_gmt_delta_sign := Some v2\<rparr>)
      else if k2 = ''gmt_hours'' then
        (case py_int v2 of Inl e \<Rightarrow> Inl e | Inr n \<Rightarrow> Inr (l\<lparr>v_gmt_delta_hours := Some n\<rparr>))
      else if k2 = ''gmt_minutes'' then
        (case py_int v2 of Inl e \<Rightarrow> Inl e | Inr n \<Rightarrow> Inr (l\<lparr>v_gmt_delta_minutes := Some n\<rparr>))
      else Inr l)"

text \<open>The body of the loop over the groups of the match.\<close>

fun group_item :: "locals \<Rightarrow> string \<times> string option \<Rightarrow> error + locals" where
  "group_item l (k, None) = Inr l"
| "group_item l (k, Some v) =
     (if k = ''hours'' then
        (case py_int v of Inl e \<Rightarrow> Inl e | Inr n \<Rightarrow> Inr (l\<lparr>int_hours := Some n\<rparr>))
      else if k = ''minutes'' then
        (case py_int v of Inl e \<Rightarrow> Inl e | Inr n \<Rightarrow> Inr (l\<lparr>int_minutes := Some n\<rparr>))
      else if k = ''seconds'' then
        (case py_int v of Inl e \<Rightarrow> Inl e | Inr n \<Rightarrow> Inr (l\<lparr>int_seconds := Some n\<rparr>))
      else if k = ''frac'' then Inr (l\<lparr>frac_seconds := Some (drop 1 v)\<rparr>)
      else if k = ''am_pm'' then
        (if CHR ''a'' \<in> set v \<or> CHR ''A'' \<in> set v
         then Inr (l\<lparr>v_am_pm := Some STR_AM\<rparr>)
         else Inr (l\<lparr>v_am_pm := Some STR_PM\<rparr>))
      else if k = ''timezone'' then
        Inr (l\<lparr>v_timezone := Some (if ''Z'' = v then ''UTC'' else v)\<rparr>)
      else if k = ''gmt_delta'' then
        (case re_search regex_gmt v of
           None \<Rightarrow> Inr (l\<lparr>gmt_delta := Some v\<rparr>)
         | Some match_gmt \<Rightarrow>
             for_each gmt_item (groupdict regex_gmt match_gmt) (l\<lparr>gmt_delta := Some v\<rparr>))
      else Inr l)"

text \<open>One pass of the loop over the pruned candidates: the record of a candidate.\<close>

definition time_value :: "candidate \<Rightarrow> error + TimeValue" where
  "time_value pc =
     (case re_match (cand_regex pc) (match_text pc) of
        None \<Rightarrow> Inl AssertionError
      | Some m \<Rightarrow>
          (case for_each group_item (groupdict (cand_regex pc) m) empty_locals of
             Inl e \<Rightarrow> Inl e
           | Inr l \<Rightarrow>
               Inr \<lparr>tv_text = match_text pc,
                    tv_start = cand_start pc,
                    tv_end = cand_end pc,
                    hours = int_hours l,
                    minutes = int_minutes l,
                    seconds = int_seconds l,
                    fractional_seconds = frac_seconds l,
                    am_pm = v_am_pm l,
                    timezone = v_timezone l,
                    gmt_delta_sign = v_gmt_delta_sign l,
                    gmt_delta_hours = v_gmt_delta_hours l,
                    gmt_delta_minutes = v_gmt_delta_minutes l\<rparr>))"

fun time_values :: "candidate list \<Rightarrow> error + TimeValue list" where
  "time_values [] = Inr []"
| "time_values (pc # pcs) =
     (case time_value pc of
        Inl e \<Rightarrow> Inl e
      | Inr meas \<Rightarrow> (case time_values pcs of Inl e \<Rightarrow> Inl e | Inr rs \<Rightarrow> Inr (meas # rs)))"

text \<open>The scan: every match of every pattern, in the order of the catalogue.\<close>

definition candidates_of :: "pattern \<Rightarrow> string \<Rightarrow> candidate list" where
  "candidates_of regex sentence =
     map (\<lambda>(start, end, g). \<lparr>cand_start = start, cand_end = end,
                               match_text = slice sentence start end, cand_regex = regex\<rparr>)
         (finditer regex sentence)"

definition find_candidates :: "string \<Rightarrow> candidate list" where
  "find_candidates sentence = concat (map (\<lambda>regex. candidates_of regex sentence) regexes)"

text \<open>
  \<open>sorted(candidates, key=lambda x: x.end-x.start, reverse=True)\<close>: a stable sort, the
  longest first.
\<close>

definition sort_candidates :: "candidate list \<Rightarrow> candidate list" where
  "sort_candidates cs = sort_key (\<lambda>x. - (int (cand_end x) - int (cand_start x))) cs"

text \<open>\<open>run\<close>, up to the list of records it hands to \<open>json.dumps\<close>.\<close>

definition run :: "string \<Rightarrow> error + TimeValue list" where
  "run sentence =
     (let candidates = sort_candidates (find_candidates (clean_sentence sentence)) in
      case remove_overlap candidates of
        Inl e \<Rightarrow> Inl e
      | Inr pruned_candidates \<Rightarrow>
          (case time_values pruned_candidates of
             Inl e \<Rightarrow> Inl e
           | Inr results \<Rightarrow> Inr (sort_key tv_start results)))"

lemma le_length_takeWhile_iff:
  "k \<le> length (takeWhile P xs) \<longleftrightarrow> (\<forall>i<k. i < length xs \<and> P (xs ! i))"
proof
  assume k: "k \<le> length (takeWhile P xs)"
  show "\<forall>i<k. i < length xs \<and> P (xs ! i)"
  proof (intro allI impI)
    fix i assume "i < k"
    with k have i: "i < length (takeWhile P xs)" by simp
    have "length (takeWhile P xs) \<le> length xs" by (rule length_takeWhile_le)
    moreover have "takeWhile P xs ! i = xs ! i" using i by (rule takeWhile_nth)
    moreover have "P (takeWhile P xs ! i)" using i by (meson nth_mem set_takeWhileD)
    ultimately show "i < length xs \<and> P (xs ! i)" using i by simp
  qed
next
  assume a: "\<forall>i<k. i < length xs \<and> P (xs ! i)"
  show "k \<le> length (takeWhile P xs)"
  proof (rule ccontr)
    assume "\<not> k \<le> length (takeWhile P xs)"
    then have lt: "length (takeWhile P xs) < k" by simp
    with a have 1: "length (takeWhile P xs) < length xs" and 2: "P (xs ! length (takeWhile P xs))"
      by auto
    from nth_length_takeWhile[OF 1] 2 show False by simp
  qed
qed

lemma le_run_len_iff:
  "k \<le> run_len ic cs s p \<longleftrightarrow> (\<forall>i<k. p + i < length s \<and> in_class ic cs (s ! (p + i)))"
  unfolding run_len_def le_length_takeWhile_iff
  by (auto simp: less_diff_conv add.commute)

lemma shift_all:
  assumes "p \<le> (e::nat)"
  shows "(\<forall>i<e - p. Q (p + i)) \<longleftrightarrow> (\<forall>j. p \<le> j \<and> j < e \<longrightarrow> Q j)"
proof
  assume a: "\<forall>i<e - p. Q (p + i)"
  show "\<forall>j. p \<le> j \<and> j < e \<longrightarrow> Q j"
  proof (intro allI impI)
    fix j assume j: "p \<le> j \<and> j < e"
    then have "j - p < e - p" by arith
    with a have "Q (p + (j - p))" by blast
    with j show "Q j" by simp
  qed
next
  assume a: "\<forall>j. p \<le> j \<and> j < e \<longrightarrow> Q j"
  show "\<forall>i<e - p. Q (p + i)"
  proof (intro allI impI)
    fix i assume "i < e - p"
    then have "p \<le> p + i \<and> p + i < e" by arith
    with a show "Q (p + i)" by blast
  qed
qed

lemma rmatch_Star_iff:
  "(e, g') \<in> set (rmatch ic (Star cs) s (p, g)) \<longleftrightarrow>
     g' = g \<and> p \<le> e \<and> (\<forall>i. p \<le> i \<and> i < e \<longrightarrow> i < length s \<and> in_class ic cs (s ! i))"
proof -
  have "(e, g') \<in> set (rmatch ic (Star cs) s (p, g)) \<longleftrightarrow>
          (\<exists>k. k \<le> run_len ic cs s p \<and> e = p + k \<and> g' = g)"
    by (auto simp: less_Suc_eq_le)
  also have "\<dots> \<longleftrightarrow> g' = g \<and> p \<le> e \<and> e - p \<le> run_len ic cs s p"
  proof
    assume "\<exists>k. k \<le> run_len ic cs s p \<and> e = p + k \<and> g' = g"
    then show "g' = g \<and> p \<le> e \<and> e - p \<le> run_len ic cs s p" by auto
  next
    assume "g' = g \<and> p \<le> e \<and> e - p \<le> run_len ic cs s p"
    then have "e - p \<le> run_len ic cs s p \<and> e = p + (e - p) \<and> g' = g" by simp
    then show "\<exists>k. k \<le> run_len ic cs s p \<and> e = p + k \<and> g' = g" by blast
  qed
  also have "\<dots> \<longleftrightarrow>
      g' = g \<and> p \<le> e \<and> (\<forall>i. p \<le> i \<and> i < e \<longrightarrow> i < length s \<and> in_class ic cs (s ! i))"
    using shift_all[of p e "\<lambda>j. j < length s \<and> in_class ic cs (s ! j)"]
    by (auto simp: le_run_len_iff)
  finally show ?thesis .
qed

lemma rmatch_Plus_iff:
  "(e, g') \<in> set (rmatch ic (Plus cs) s (p, g)) \<longleftrightarrow>
     g' = g \<and> p < e \<and> (\<forall>i. p \<le> i \<and> i < e \<longrightarrow> i < length s \<and> in_class ic cs (s ! i))"
proof -
  have "(e, g') \<in> set (rmatch ic (Plus cs) s (p, g)) \<longleftrightarrow>
          (\<exists>k. 1 \<le> k \<and> k \<le> run_len ic cs s p \<and> e = p + k \<and> g' = g)"
    by (auto simp: less_Suc_eq_le)
  also have "\<dots> \<longleftrightarrow> g' = g \<and> p < e \<and> e - p \<le> run_len ic cs s p"
  proof
    assume "\<exists>k. 1 \<le> k \<and> k \<le> run_len ic cs s p \<and> e = p + k \<and> g' = g"
    then show "g' = g \<and> p < e \<and> e - p \<le> run_len ic cs s p" by auto
  next
    assume "g' = g \<and> p < e \<and> e - p \<le> run_len ic cs s p"
    then have "1 \<le> e - p \<and> e - p \<le> run_len ic cs s p \<and> e = p + (e - p) \<and> g' = g" by auto
    then show "\<exists>k. 1 \<le> k \<and> k \<le> run_len ic cs s p \<and> e = p + k \<and> g' = g" by blast
  qed
  also have "\<dots> \<longleftrightarrow>
      g' = g \<and> p < e \<and> (\<forall>i. p \<le> i \<and> i < e \<longrightarrow> i < length s \<and> in_class ic cs (s ! i))"
    using shift_all[of p e "\<lambda>j. j < length s \<and> in_class ic cs (s ! j)"]
    by (auto simp: le_run_len_iff)
  finally show ?thesis .
qed

text \<open>Which positions a pattern reaches does not depend on the groups set before.\<close>

lemma rmatch_groups:
  "(e, g') \<in> set (rmatch ic r s (p, g1)) \<Longrightarrow> \<exists>g''. (e, g'') \<in> set (rmatch ic r s (p, g2))"
proof (induction r arbitrary: p g1 g2 e g')
  case (Seq a b)
  then obtain m gm where 1: "(m, gm) \<in> set (rmatch ic a s (p, g1))"
    and 2: "(e, g') \<in> set (rmatch ic b s (m, gm))" by auto
  from Seq.IH(1)[OF 1] obtain gm' where 3: "(m, gm') \<in> set (rmatch ic a s (p, g2))" by blast
  from Seq.IH(2)[OF 2] obtain g'' where "(e, g'') \<in> set (rmatch ic b s (m, gm'))" by blast
  with 3 show ?case by auto
next
  case (Alt a b)
  then show ?case by (auto dest: Alt.IH(1) Alt.IH(2))
next
  case (Opt a)
  then show ?case by (auto dest: Opt.IH)
next
  case (Star cs)
  then show ?case unfolding rmatch_Star_iff by blast
next
  case (Plus cs)
  then show ?case unfolding rmatch_Plus_iff by blast
next
  case (Grp n a)
  then obtain g0 where "(e, g0) \<in> set (rmatch ic a s (p, g1))" by auto
  from Grp.IH[OF this] obtain g'' where "(e, g'') \<in> set (rmatch ic a s (p, g2))" by blast
  then have "(e, (n, slice s p e) # g'') \<in> set (rmatch ic (Grp n a) s (p, g2))" by force
  then show ?case by blast
next
  case (NotAhead a)
  then have e: "e = p" and emp: "rmatch ic a s (p, g1) = []" by (auto split: if_splits)
  have "rmatch ic a s (p, g2) = []"
  proof (rule ccontr)
    assume "rmatch ic a s (p, g2) \<noteq> []"
    then obtain x gx where "(x, gx) \<in> set (rmatch ic a s (p, g2))"
      by (metis list.set_intros(1) neq_Nil_conv surj_pair)
    from NotAhead.IH[OF this, of g1] emp show False by simp
  qed
  with e show ?case by simp
qed (auto split: if_splits)

section \<open>Facts about letter case\<close>

lemma swapcase_cases:
  "swapcase c = c \<or> (c \<in> set (ascii_lowercase @ ascii_uppercase)
                      \<and> swapcase c \<in> set (ascii_lowercase @ ascii_uppercase))"
  by (simp add: swapcase_def ascii_lowercase_def ascii_uppercase_def)

lemma swapcase_involution: "swapcase (swapcase c) = c"
  by (simp add: swapcase_def ascii_lowercase_def ascii_uppercase_def)

lemma letters_are_word: "c \<in> set (ascii_lowercase @ ascii_uppercase) \<Longrightarrow> is_word c"
  by (auto simp: is_word_def word_chars_def ascii_lowercase_def ascii_uppercase_def)

lemma is_word_swapcase: "is_word (swapcase c) = is_word c"
  using swapcase_cases[of c] letters_are_word by auto

lemma in_class_word: "list_all is_word cs \<Longrightarrow> in_class ic cs c \<Longrightarrow> is_word c"
  using is_word_swapcase[of c] by (auto simp: in_class_def list_all_iff split: if_splits)

lemma in_class_enum:
  "in_class ic cs c \<Longrightarrow> c \<in> set (if ic then cs @ map swapcase cs else cs)"
proof -
  assume a: "in_class ic cs c"
  show ?thesis
  proof (cases "c \<in> set cs")
    case True
    then show ?thesis by simp
  next
    case False
    with a have ic: ic and "swapcase c \<in> set cs" by (auto simp: in_class_def split: if_splits)
    then have "swapcase (swapcase c) \<in> swapcase ` set cs" by blast
    then show ?thesis using ic by (simp add: swapcase_involution)
  qed
qed

section \<open>Matching a match again, alone\<close>

text \<open>
  \<open>positive\<close>: no lookahead and no word boundary. Such a pattern reads only the
  characters it consumes, so a way of matching inside a slice of the sentence is a way
  of matching in the sentence.
\<close>

fun positive :: "regex \<Rightarrow> bool" where
  "positive Eps = True"
| "positive (Cls cs) = True"
| "positive (Seq a b) = (positive a \<and> positive b)"
| "positive (Alt a b) = (positive a \<and> positive b)"
| "positive (Opt a) = positive a"
| "positive (Star cs) = True"
| "positive (Plus cs) = True"
| "positive (Grp n a) = positive a"
| "positive (NotAhead a) = False"
| "positive WordB = False"

fun trunc_ok :: "regex \<Rightarrow> bool" where
  "trunc_ok Eps = True"
| "trunc_ok (Cls cs) = True"
| "trunc_ok (Seq a b) = (trunc_ok a \<and> trunc_ok b)"
| "trunc_ok (Alt a b) = (trunc_ok a \<and> trunc_ok b)"
| "trunc_ok (Opt a) = trunc_ok a"
| "trunc_ok (Star cs) = True"
| "trunc_ok (Plus cs) = True"
| "trunc_ok (Grp n a) = trunc_ok a"
| "trunc_ok (NotAhead a) = positive a"
| "trunc_ok WordB = False"

text \<open>\<open>sw\<close>: every match consumes a word character first; \<open>swe\<close>: or is empty.\<close>

fun sw :: "regex \<Rightarrow> bool" and swe :: "regex \<Rightarrow> bool" where
  "sw Eps = False"
| "sw (Cls cs) = list_all is_word cs"
| "sw (Seq a b) = (if sw a then True else if swe a then sw b else False)"
| "sw (Alt a b) = (if sw a then sw b else False)"
| "sw (Opt a) = False"
| "sw (Star cs) = False"
| "sw (Plus cs) = list_all is_word cs"
| "sw (Grp n a) = sw a"
| "sw (NotAhead a) = False"
| "sw WordB = False"
| "swe Eps = True"
| "swe (Cls cs) = list_all is_word cs"
| "swe (Seq a b) = (if sw a then True else if swe a then swe b else False)"
| "swe (Alt a b) = (if swe a then swe b else False)"
| "swe (Opt a) = swe a"
| "swe (Star cs) = list_all is_word cs"
| "swe (Plus cs) = list_all is_word cs"
| "swe (Grp n a) = swe a"
| "swe (NotAhead a) = True"
| "swe WordB = True"

definition rematch_safe :: "regex \<Rightarrow> bool" where
  "rematch_safe r = (case r of Seq WordB body \<Rightarrow> trunc_ok body \<and> sw body | _ \<Rightarrow> False)"

lemma length_slice: "length (slice s a b) = min (b - a) (length s - a)"
  by (simp add: slice_def)

lemma nth_slice: "i < length (slice s a b) \<Longrightarrow> slice s a b ! i = s ! (a + i)"
proof -
  assume "i < length (slice s a b)"
  then have 1: "i < b - a" and 2: "a \<le> length s" by (auto simp: slice_def)
  then show ?thesis by (simp add: slice_def nth_drop)
qed

lemma rmatch_lift:
  assumes "positive a" and "(e, g') \<in> set (rmatch ic a (slice s p0 E) (q, g))"
  shows "\<exists>g''. (e + p0, g'') \<in> set (rmatch ic a s (q + p0, g2))"
  using assms
proof (induction a arbitrary: q g g2 e g')
  case Eps
  then show ?case by simp
next
  case (Cls cs)
  then have q: "q < length (slice s p0 E)" and c: "in_class ic cs (slice s p0 E ! q)" and e: "e = Suc q"
    by (auto split: if_splits)
  from q have "q + p0 < length s" by (simp add: length_slice) arith
  moreover from c nth_slice[OF q] have "in_class ic cs (s ! (q + p0))" by (simp add: add.commute)
  ultimately show ?case using e by simp
next
  case (Seq a b)
  then obtain m gm where 1: "(m, gm) \<in> set (rmatch ic a (slice s p0 E) (q, g))"
    and 2: "(e, g') \<in> set (rmatch ic b (slice s p0 E) (m, gm))" by auto
  from Seq.prems(1) have pa: "positive a" and pb: "positive b" by simp_all
  from Seq.IH(1)[OF pa 1] obtain gm' where 3: "(m + p0, gm') \<in> set (rmatch ic a s (q + p0, g2))"
    by blast
  from Seq.IH(2)[OF pb 2] obtain g'' where "(e + p0, g'') \<in> set (rmatch ic b s (m + p0, gm'))"
    by blast
  with 3 show ?case by auto
next
  case (Alt a b)
  then show ?case by (auto dest: Alt.IH(1) Alt.IH(2))
next
  case (Opt a)
  then show ?case by (auto dest: Opt.IH)
next
  case (Star cs)
  from Star.prems(2) have qe: "q \<le> e"
    and all: "\<forall>i. q \<le> i \<and> i < e \<longrightarrow> i < length (slice s p0 E) \<and> in_class ic cs (slice s p0 E ! i)"
    unfolding rmatch_Star_iff by auto
  have "\<forall>j. q + p0 \<le> j \<and> j < e + p0 \<longrightarrow> j < length s \<and> in_class ic cs (s ! j)"
  proof (intro allI impI)
    fix j assume j: "q + p0 \<le> j \<and> j < e + p0"
    then have "q \<le> j - p0 \<and> j - p0 < e" by arith
    with all have i: "j - p0 < length (slice s p0 E)" and c: "in_class ic cs (slice s p0 E ! (j - p0))"
      by auto
    from j have jp: "p0 + (j - p0) = j" by arith
    from i have "j - p0 < length s - p0" by (simp add: length_slice)
    with jp have "j < length s" by arith
    moreover from c nth_slice[OF i] jp have "in_class ic cs (s ! j)" by simp
    ultimately show "j < length s \<and> in_class ic cs (s ! j)" by simp
  qed
  with qe show ?case unfolding rmatch_Star_iff by simp
next
  case (Plus cs)
  from Plus.prems(2) have qe: "q < e"
    and all: "\<forall>i. q \<le> i \<and> i < e \<longrightarrow> i < length (slice s p0 E) \<and> in_class ic cs (slice s p0 E ! i)"
    unfolding rmatch_Plus_iff by auto
  have "\<forall>j. q + p0 \<le> j \<and> j < e + p0 \<longrightarrow> j < length s \<and> in_class ic cs (s ! j)"
  proof (intro allI impI)
    fix j assume j: "q + p0 \<le> j \<and> j < e + p0"
    then have "q \<le> j - p0 \<and> j - p0 < e" by arith
    with all have i: "j - p0 < length (slice s p0 E)" and c: "in_class ic cs (slice s p0 E ! (j - p0))"
      by auto
    from j have jp: "p0 + (j - p0) = j" by arith
    from i have "j - p0 < length s - p0" by (simp add: length_slice)
    with jp have "j < length s" by arith
    moreover from c nth_slice[OF i] jp have "in_class ic cs (s ! j)" by simp
    ultimately show "j < length s \<and> in_class ic cs (s ! j)" by simp
  qed
  with qe show ?case unfolding rmatch_Plus_iff by simp
next
  case (Grp n a)
  then obtain g0 where "(e, g0) \<in> set (rmatch ic a (slice s p0 E) (q, g))" by auto
  from Grp.IH[OF _ this, of g2] Grp.prems(1)
  obtain g'' where "(e + p0, g'') \<in> set (rmatch ic a s (q + p0, g2))" by auto
  then have "(e + p0, (n, slice s (q + p0) (e + p0)) # g'') \<in> set (rmatch ic (Grp n a) s (q + p0, g2))"
    by force
  then show ?case by blast
next
  case (NotAhead a)
  then show ?case by simp
next
  case WordB
  then show ?case by simp
qed

lemma rmatch_trunc:
  assumes "trunc_ok r" and "(e, g') \<in> set (rmatch ic r s (p, g))" and "p0 \<le> p" and "e \<le> E"
  shows "\<exists>g''. (e - p0, g'') \<in> set (rmatch ic r (slice s p0 E) (p - p0, g2))"
  using assms
proof (induction r arbitrary: p g g2 e g')
  case Eps
  then show ?case by simp
next
  case (Cls cs)
  then have p: "p < length s" and c: "in_class ic cs (s ! p)" and e: "e = Suc p"
    by (auto split: if_splits)
  from p e Cls.prems(3,4) have q: "p - p0 < length (slice s p0 E)"
    by (simp add: length_slice) arith
  from nth_slice[OF q] Cls.prems(3) c have "in_class ic cs (slice s p0 E ! (p - p0))" by simp
  moreover from e Cls.prems(3) have "e - p0 = Suc (p - p0)" by arith
  ultimately show ?case using q by simp
next
  case (Seq a b)
  then obtain m gm where 1: "(m, gm) \<in> set (rmatch ic a s (p, g))"
    and 2: "(e, g') \<in> set (rmatch ic b s (m, gm))" by auto
  from rmatch_bounds[OF 1] rmatch_bounds[OF 2] Seq.prems(3,4)
  have pm: "p0 \<le> m" and mE: "m \<le> E" by auto
  from Seq.prems(1) have ta: "trunc_ok a" and tb: "trunc_ok b" by simp_all
  from Seq.IH(1)[OF ta 1 Seq.prems(3) mE] obtain gm'
    where 3: "(m - p0, gm') \<in> set (rmatch ic a (slice s p0 E) (p - p0, g2))" by blast
  from Seq.IH(2)[OF tb 2 pm Seq.prems(4)] obtain g''
    where "(e - p0, g'') \<in> set (rmatch ic b (slice s p0 E) (m - p0, gm'))" by blast
  with 3 show ?case by auto
next
  case (Alt a b)
  then show ?case by (auto dest: Alt.IH(1) Alt.IH(2))
next
  case (Opt a)
  then show ?case by (auto dest: Opt.IH)
next
  case (Star cs)
  from Star.prems(2) have pe: "p \<le> e"
    and all: "\<forall>i. p \<le> i \<and> i < e \<longrightarrow> i < length s \<and> in_class ic cs (s ! i)"
    unfolding rmatch_Star_iff by auto
  have "\<forall>j. p - p0 \<le> j \<and> j < e - p0 \<longrightarrow>
            j < length (slice s p0 E) \<and> in_class ic cs (slice s p0 E ! j)"
  proof (intro allI impI)
    fix j assume j: "p - p0 \<le> j \<and> j < e - p0"
    with Star.prems(3) have "p \<le> p0 + j \<and> p0 + j < e" by arith
    with all have l: "p0 + j < length s" and c: "in_class ic cs (s ! (p0 + j))" by auto
    from j l Star.prems(4) have i: "j < length (slice s p0 E)"
      by (simp add: length_slice) arith
    from nth_slice[OF i] c show "j < length (slice s p0 E) \<and> in_class ic cs (slice s p0 E ! j)"
      using i by simp
  qed
  moreover from pe have "p - p0 \<le> e - p0" by arith
  ultimately show ?case unfolding rmatch_Star_iff by simp
next
  case (Plus cs)
  from Plus.prems(2) have pe: "p < e"
    and all: "\<forall>i. p \<le> i \<and> i < e \<longrightarrow> i < length s \<and> in_class ic cs (s ! i)"
    unfolding rmatch_Plus_iff by auto
  have "\<forall>j. p - p0 \<le> j \<and> j < e - p0 \<longrightarrow>
            j < length (slice s p0 E) \<and> in_class ic cs (slice s p0 E ! j)"
  proof (intro allI impI)
    fix j assume j: "p - p0 \<le> j \<and> j < e - p0"
    with Plus.prems(3) have "p \<le> p0 + j \<and> p0 + j < e" by arith
    with all have l: "p0 + j < length s" and c: "in_class ic cs (s ! (p0 + j))" by auto
    from j l Plus.prems(4) have i: "j < length (slice s p0 E)"
      by (simp add: length_slice) arith
    from nth_slice[OF i] c show "j < length (slice s p0 E) \<and> in_class ic cs (slice s p0 E ! j)"
      using i by simp
  qed
  moreover from pe Plus.prems(3) have "p - p0 < e - p0" by arith
  ultimately show ?case unfolding rmatch_Plus_iff by simp
next
  case (Grp n a)
  then obtain g0 where "(e, g0) \<in> set (rmatch ic a s (p, g))" by auto
  from Grp.IH[OF _ this Grp.prems(3,4), of g2] Grp.prems(1)
  obtain g'' where "(e - p0, g'') \<in> set (rmatch ic a (slice s p0 E) (p - p0, g2))" by auto
  then have "(e - p0, (n, slice (slice s p0 E) (p - p0) (e - p0)) # g'')
               \<in> set (rmatch ic (Grp n a) (slice s p0 E) (p - p0, g2))"
    by force
  then show ?case by blast
next
  case (NotAhead a)
  then have e: "e = p" and emp: "rmatch ic a s (p, g) = []" and pos: "positive a"
    by (auto split: if_splits)
  have "rmatch ic a (slice s p0 E) (p - p0, g2) = []"
  proof (rule ccontr)
    assume "rmatch ic a (slice s p0 E) (p - p0, g2) \<noteq> []"
    then obtain x gx where "(x, gx) \<in> set (rmatch ic a (slice s p0 E) (p - p0, g2))"
      by (metis list.set_intros(1) neq_Nil_conv surj_pair)
    from rmatch_lift[OF pos this, of g] NotAhead.prems(3) emp show False by simp
  qed
  with e show ?case by simp
next
  case WordB
  then show ?case by simp
qed

lemma sw_Seq: "sw (Seq a b) \<longleftrightarrow> sw a \<or> (swe a \<and> sw b)"
  by simp

lemma swe_Seq: "swe (Seq a b) \<longleftrightarrow> sw a \<or> (swe a \<and> swe b)"
  by simp

lemma sw_Alt: "sw (Alt a b) \<longleftrightarrow> sw a \<and> sw b"
  by simp

lemma swe_Alt: "swe (Alt a b) \<longleftrightarrow> swe a \<and> swe b"
  by simp

lemma sw_sound:
  assumes "(e, g') \<in> set (rmatch ic r s (p, g))"
  shows "(sw r \<longrightarrow> p < e \<and> p < length s \<and> is_word (s ! p))
       \<and> (swe r \<longrightarrow> p = e \<or> (p < e \<and> p < length s \<and> is_word (s ! p)))"
  using assms
proof (induction r arbitrary: p g e g')
  case Eps
  then show ?case by simp
next
  case (Cls cs)
  then show ?case by (auto dest: in_class_word split: if_splits)
next
  case (Seq a b)
  from Seq.prems obtain m gm where 1: "(m, gm) \<in> set (rmatch ic a s (p, g))"
    and 2: "(e, g') \<in> set (rmatch ic b s (m, gm))" by auto
  from rmatch_bounds[OF 1] rmatch_bounds[OF 2] have "p \<le> m" "m \<le> e" by auto
  with Seq.IH(1)[OF 1] Seq.IH(2)[OF 2] show ?case
    unfolding sw_Seq swe_Seq by auto
next
  case (Alt a b)
  from Alt.prems have "(e, g') \<in> set (rmatch ic a s (p, g)) \<or> (e, g') \<in> set (rmatch ic b s (p, g))"
    by auto
  then show ?case
  proof
    assume "(e, g') \<in> set (rmatch ic a s (p, g))"
    from Alt.IH(1)[OF this] show ?case unfolding sw_Alt swe_Alt by blast
  next
    assume "(e, g') \<in> set (rmatch ic b s (p, g))"
    from Alt.IH(2)[OF this] show ?case unfolding sw_Alt swe_Alt by blast
  qed
next
  case (Opt a)
  from Opt.prems have "(e, g') \<in> set (rmatch ic a s (p, g)) \<or> e = p" by auto
  then show ?case
  proof
    assume "(e, g') \<in> set (rmatch ic a s (p, g))"
    from Opt.IH[OF this] show ?case by simp
  next
    assume "e = p"
    then show ?case by simp
  qed
next
  case (Star cs)
  from Star.prems have pe: "p \<le> e"
    and all: "\<forall>i. p \<le> i \<and> i < e \<longrightarrow> i < length s \<and> in_class ic cs (s ! i)"
    unfolding rmatch_Star_iff by auto
  show ?case
  proof (cases "p = e")
    case True
    then show ?thesis by simp
  next
    case False
    with pe all have "p < e" "p < length s" "in_class ic cs (s ! p)" by auto
    then show ?thesis by (auto dest: in_class_word)
  qed
next
  case (Plus cs)
  from Plus.prems have pe: "p < e"
    and all: "\<forall>i. p \<le> i \<and> i < e \<longrightarrow> i < length s \<and> in_class ic cs (s ! i)"
    unfolding rmatch_Plus_iff by auto
  then have "p < length s" "in_class ic cs (s ! p)" by auto
  with pe show ?case by (auto dest: in_class_word)
next
  case (Grp n a)
  from Grp.prems obtain g0 where "(e, g0) \<in> set (rmatch ic a s (p, g))" by auto
  from Grp.IH[OF this] show ?case by simp
next
  case (NotAhead a)
  then show ?case by (simp split: if_splits)
next
  case WordB
  then show ?case by (simp split: if_splits)
qed

text \<open>A match of a pattern of the catalogue, cut out of the sentence, matches again.\<close>

lemma rematch:
  assumes "rematch_safe r" and "(e, g) \<in> set (rmatch ic r s (p, []))"
  shows "rmatch ic r (slice s p e) (0, []) \<noteq> []"
proof -
  from assms(1) obtain body where r: "r = Seq WordB body" and t: "trunc_ok body" and w: "sw body"
    by (auto simp: rematch_safe_def split: regex.splits)
  from assms(2) r have b: "(e, g) \<in> set (rmatch ic body s (p, []))"
    by (auto split: if_splits)
  from sw_sound[OF b] w have pe: "p < e" and pl: "p < length s" and iw: "is_word (s ! p)"
    by auto
  have l: "0 < length (slice s p e)" using pe pl by (simp add: length_slice)
  from nth_slice[OF l] iw have "is_word (slice s p e ! 0)" by simp
  with l have wb: "wordb (slice s p e) 0" by (simp add: wordb_def)
  from rmatch_trunc[OF t b, of p e "[]"] obtain g''
    where "(e - p, g'') \<in> set (rmatch ic body (slice s p e) (0, []))" by auto
  with wb r show ?thesis by auto
qed

section \<open>What a named group can hold\<close>

lemma slice_append: "p \<le> m \<Longrightarrow> m \<le> e \<Longrightarrow> slice s p e = slice s p m @ slice s m e"
proof -
  assume pm: "p \<le> m" and me: "m \<le> e"
  then have "e - p = (m - p) + (e - m)" by arith
  then have "take (e - p) (drop p s) = take (m - p) (drop p s) @ take (e - m) (drop (m - p) (drop p s))"
    by (simp add: take_add)
  moreover from pm have "drop (m - p) (drop p s) = drop m s" by simp
  ultimately show ?thesis by (simp add: slice_def)
qed

lemma slice_one: "p < length s \<Longrightarrow> slice s p (Suc p) = [s ! p]"
proof -
  assume p: "p < length s"
  then have "drop p s = s ! p # drop (Suc p) s" by (simp add: Cons_nth_drop_Suc)
  moreover have "Suc p - p = Suc 0" by simp
  ultimately show ?thesis unfolding slice_def by simp
qed

lemma slice_same: "slice s p p = []"
  by (simp add: slice_def)

text \<open>
  A pattern without repetition consumes one of finitely many texts; \<open>enum\<close> lists them
  (a lookahead and a word boundary consume nothing).
\<close>

fun star_free :: "regex \<Rightarrow> bool" where
  "star_free Eps = True"
| "star_free (Cls cs) = True"
| "star_free (Seq a b) = (star_free a \<and> star_free b)"
| "star_free (Alt a b) = (star_free a \<and> star_free b)"
| "star_free (Opt a) = star_free a"
| "star_free (Star cs) = False"
| "star_free (Plus cs) = False"
| "star_free (Grp n a) = star_free a"
| "star_free (NotAhead a) = True"
| "star_free WordB = True"

fun enum :: "bool \<Rightarrow> regex \<Rightarrow> string list" where
  "enum ic Eps = [[]]"
| "enum ic (Cls cs) = map (\<lambda>c. [c]) (if ic then cs @ map swapcase cs else cs)"
| "enum ic (Seq a b) = concat (map (\<lambda>u. map (\<lambda>v. u @ v) (enum ic b)) (enum ic a))"
| "enum ic (Alt a b) = enum ic a @ enum ic b"
| "enum ic (Opt a) = enum ic a @ [[]]"
| "enum ic (Star cs) = []"
| "enum ic (Plus cs) = []"
| "enum ic (Grp n a) = enum ic a"
| "enum ic (NotAhead a) = [[]]"
| "enum ic WordB = [[]]"

lemma enum_sound:
  assumes "star_free r" and "(e, g') \<in> set (rmatch ic r s (p, g))"
  shows "slice s p e \<in> set (enum ic r)"
  using assms
proof (induction r arbitrary: p g e g')
  case Eps
  then show ?case by (simp add: slice_same)
next
  case (Cls cs)
  then have p: "p < length s" and c: "in_class ic cs (s ! p)" and e: "e = Suc p"
    by (auto split: if_splits)
  from in_class_enum[OF c] have "[s ! p] \<in> set (enum ic (Cls cs))" by auto
  with p e show ?case by (simp add: slice_one)
next
  case (Seq a b)
  then obtain m gm where 1: "(m, gm) \<in> set (rmatch ic a s (p, g))"
    and 2: "(e, g') \<in> set (rmatch ic b s (m, gm))" by auto
  from rmatch_bounds[OF 1] rmatch_bounds[OF 2] have "p \<le> m" "m \<le> e" by auto
  then have "slice s p e = slice s p m @ slice s m e" by (rule slice_append)
  moreover from Seq.prems(1) Seq.IH(1)[OF _ 1] have "slice s p m \<in> set (enum ic a)" by simp
  moreover from Seq.prems(1) Seq.IH(2)[OF _ 2] have "slice s m e \<in> set (enum ic b)" by simp
  ultimately show ?case by auto
next
  case (Alt a b)
  then show ?case by (auto dest: Alt.IH(1) Alt.IH(2))
next
  case (Opt a)
  then show ?case by (auto simp: slice_same dest: Opt.IH)
next
  case (Grp n a)
  then obtain g0 where "(e, g0) \<in> set (rmatch ic a s (p, g))" by auto
  from Grp.IH[OF _ this] Grp.prems(1) show ?case by simp
next
  case (NotAhead a)
  then show ?case by (auto simp: slice_same split: if_splits)
next
  case WordB
  then show ?case by (auto simp: slice_same split: if_splits)
qed simp_all

text \<open>The values of the fields, by group name.\<close>

definition int_in :: "string \<Rightarrow> int \<Rightarrow> int \<Rightarrow> bool" where
  "int_in v lo hi = (case py_int v of Inl e \<Rightarrow> False | Inr n \<Rightarrow> lo \<le> n \<and> n \<le> hi)"

definition digit_string :: "string \<Rightarrow> bool" where
  "digit_string v = (v \<noteq> [] \<and> list_all (\<lambda>c. c \<in> set d09) v)"

definition group_ok :: "string \<Rightarrow> string \<Rightarrow> bool" where
  "group_ok n v =
     (if n = ''hours'' then int_in v 0 24
      else if n = ''minutes'' then int_in v 0 59
      else if n = ''seconds'' then int_in v 0 60
      else if n = ''gmt_hours'' then int_in v 0 24
      else if n = ''gmt_minutes'' then int_in v 0 59
      else if n = ''gmt_sign'' then v = ''+'' \<or> v = ''-''
      else if n = ''frac'' then digit_string (drop 1 v)
      else True)"

definition checked_names :: "string list" where
  "checked_names = [''hours'', ''minutes'', ''seconds'', ''gmt_hours'', ''gmt_minutes'',
                    ''gmt_sign'', ''frac'']"

definition frac_shape :: "regex \<Rightarrow> bool" where
  "frac_shape a =
     (case a of
        Seq (Cls c1) (Seq (Plus cs) Eps) \<Rightarrow> list_all (\<lambda>c. c \<in> set d09) cs
      | _ \<Rightarrow> False)"

fun groups_checked :: "bool \<Rightarrow> regex \<Rightarrow> bool" where
  "groups_checked ic Eps = True"
| "groups_checked ic (Cls cs) = True"
| "groups_checked ic (Seq a b) = (groups_checked ic a \<and> groups_checked ic b)"
| "groups_checked ic (Alt a b) = (groups_checked ic a \<and> groups_checked ic b)"
| "groups_checked ic (Opt a) = groups_checked ic a"
| "groups_checked ic (Star cs) = True"
| "groups_checked ic (Plus cs) = True"
| "groups_checked ic (Grp n a) =
     ((n \<notin> set checked_names
       \<or> (n = ''frac'' \<and> \<not> ic \<and> frac_shape a)
       \<or> (star_free a \<and> list_all (group_ok n) (enum ic a)))
      \<and> groups_checked ic a)"
| "groups_checked ic (NotAhead a) = True"
| "groups_checked ic WordB = True"

definition groups_ok :: "groups \<Rightarrow> bool" where
  "groups_ok g = list_all (\<lambda>(n, v). group_ok n v) g"

lemma group_ok_unchecked: "n \<notin> set checked_names \<Longrightarrow> group_ok n v"
  by (simp add: group_ok_def checked_names_def)

lemma frac_sound:
  assumes "frac_shape a" and "(e, g') \<in> set (rmatch False a s (p, g))"
  shows "digit_string (drop 1 (slice s p e))"
proof -
  from assms(1) obtain c1 cs where a: "a = Seq (Cls c1) (Seq (Plus cs) Eps)"
    and d: "list_all (\<lambda>c. c \<in> set d09) cs"
    by (auto simp: frac_shape_def split: regex.splits)
  from assms(2) a obtain g1 where 1: "(Suc p, g1) \<in> set (rmatch False (Cls c1) s (p, g))"
    and 2: "(e, g') \<in> set (rmatch False (Plus cs) s (Suc p, g1))"
    by (auto split: if_splits)
  from 1 have pl: "p < length s" by (auto split: if_splits)
  from 2 have pe: "Suc p < e"
    and all: "\<forall>i. Suc p \<le> i \<and> i < e \<longrightarrow> i < length s \<and> in_class False cs (s ! i)"
    unfolding rmatch_Plus_iff by auto
  from pe have "Suc p \<le> e - 1 \<and> e - 1 < e" by arith
  with all have "e - 1 < length s" by blast
  with pe have el: "e \<le> length s" by arith
  have sp: "slice s p e = slice s p (Suc p) @ slice s (Suc p) e"
    using pe by (intro slice_append) auto
  then have dr: "drop 1 (slice s p e) = slice s (Suc p) e" using pl by (simp add: slice_one)
  have len: "length (slice s (Suc p) e) = e - Suc p" using el by (simp add: length_slice)
  have "\<forall>i<length (slice s (Suc p) e). slice s (Suc p) e ! i \<in> set d09"
  proof (intro allI impI)
    fix i assume i: "i < length (slice s (Suc p) e)"
    with len have "Suc p \<le> Suc p + i \<and> Suc p + i < e" by arith
    with all have "in_class False cs (s ! (Suc p + i))" by blast
    then have "s ! (Suc p + i) \<in> set cs" by (simp add: in_class_def split: if_splits)
    with d have "s ! (Suc p + i) \<in> set d09" by (simp add: list_all_iff)
    with nth_slice[OF i] show "slice s (Suc p) e ! i \<in> set d09" by simp
  qed
  then have "list_all (\<lambda>c. c \<in> set d09) (slice s (Suc p) e)" by (simp add: list_all_length)
  moreover from len pe have "slice s (Suc p) e \<noteq> []" by auto
  ultimately show ?thesis using dr by (simp add: digit_string_def)
qed

lemma groups_checked_sound:
  assumes "groups_checked ic r" and "groups_ok g" and "(e, g') \<in> set (rmatch ic r s (p, g))"
  shows "groups_ok g'"
  using assms
proof (induction r arbitrary: p g e g')
  case Eps
  then show ?case by simp
next
  case (Cls cs)
  then show ?case by (simp split: if_splits)
next
  case (Seq a b)
  from Seq.prems(3) obtain m gm where 1: "(m, gm) \<in> set (rmatch ic a s (p, g))"
    and 2: "(e, g') \<in> set (rmatch ic b s (m, gm))" by auto
  from Seq.prems(1) have ca: "groups_checked ic a" and cb: "groups_checked ic b" by simp_all
  from Seq.IH(1)[OF ca Seq.prems(2) 1] have "groups_ok gm" .
  from Seq.IH(2)[OF cb this 2] show ?case .
next
  case (Alt a b)
  from Alt.prems(1) have ca: "groups_checked ic a" and cb: "groups_checked ic b" by simp_all
  from Alt.prems(3) have "(e, g') \<in> set (rmatch ic a s (p, g)) \<or> (e, g') \<in> set (rmatch ic b s (p, g))"
    by simp
  then show ?case using Alt.IH(1)[OF ca Alt.prems(2)] Alt.IH(2)[OF cb Alt.prems(2)] by blast
next
  case (Opt a)
  from Opt.prems(1) have ca: "groups_checked ic a" by simp
  from Opt.prems(3) have "(e, g') \<in> set (rmatch ic a s (p, g)) \<or> g' = g" by auto
  then show ?case using Opt.IH[OF ca Opt.prems(2)] Opt.prems(2) by blast
next
  case (Star cs)
  from Star.prems(3) have "g' = g" unfolding rmatch_Star_iff by simp
  with Star.prems(2) show ?case by simp
next
  case (Plus cs)
  from Plus.prems(3) have "g' = g" unfolding rmatch_Plus_iff by simp
  with Plus.prems(2) show ?case by simp
next
  case (Grp n a)
  from Grp.prems(3) obtain g0 where m: "(e, g0) \<in> set (rmatch ic a s (p, g))"
    and g': "g' = (n, slice s p e) # g0" by auto
  from Grp.prems(1) have ca: "groups_checked ic a" by simp
  from Grp.IH[OF ca Grp.prems(2) m] have g0: "groups_ok g0" .
  from Grp.prems(1) have "n \<notin> set checked_names
    \<or> (n = ''frac'' \<and> \<not> ic \<and> frac_shape a)
    \<or> (star_free a \<and> list_all (group_ok n) (enum ic a))" by simp
  then have "group_ok n (slice s p e)"
  proof (elim disjE conjE)
    assume "n \<notin> set checked_names"
    then show ?thesis by (rule group_ok_unchecked)
  next
    assume n: "n = ''frac''" and nic: "\<not> ic" and fs: "frac_shape a"
    from nic m have "(e, g0) \<in> set (rmatch False a s (p, g))" by simp
    from frac_sound[OF fs this] n show ?thesis by (simp add: group_ok_def)
  next
    assume "star_free a" and "list_all (group_ok n) (enum ic a)"
    with enum_sound[OF _ m] show ?thesis by (simp add: list_all_iff)
  qed
  with g0 g' show ?case by (simp add: groups_ok_def)
next
  case (NotAhead a)
  from NotAhead.prems(3) have "g' = g" by (simp split: if_splits)
  with NotAhead.prems(2) show ?case by simp
next
  case WordB
  from WordB.prems(3) have "g' = g" by (simp split: if_splits)
  with WordB.prems(2) show ?case by simp
qed

section \<open>Where the matches of the library calls come from\<close>

lemma finditer_from_mem:
  "(p, e, g) \<in> set (finditer_from ic r s p0 adv)
   \<Longrightarrow> (e, g) \<in> set (rmatch ic r s (p, [])) \<and> p0 \<le> p \<and> p \<le> length s"
proof (induction ic r s p0 adv rule: finditer_from.induct)
  case (1 ic r s p0 adv)
  show ?case
  proof (cases "length s < p0")
    case True
    with "1.prems" show ?thesis by simp
  next
    case False
    show ?thesis
    proof (cases "filter (\<lambda>(e, g). \<not> (adv \<and> e = p0)) (rmatch ic r s (p0, []))")
      case Nil
      with False "1.prems" have "(p, e, g) \<in> set (finditer_from ic r s (Suc p0) False)" by simp
      from "1.IH"(1)[OF False Nil this] show ?thesis by simp
    next
      case (Cons x xs)
      obtain e1 g1 where x: "x = (e1, g1)" by (cases x)
      have "(e1, g1) \<in> set (filter (\<lambda>(e, g). \<not> (adv \<and> e = p0)) (rmatch ic r s (p0, [])))"
        using Cons x by simp
      then have m1: "(e1, g1) \<in> set (rmatch ic r s (p0, []))" by simp
      from rmatch_bounds[OF m1] have b: "p0 \<le> e1" by simp
      from False Cons x "1.prems"
      have "(p, e, g) = (p0, e1, g1) \<or> (p, e, g) \<in> set (finditer_from ic r s e1 (e1 = p0))"
        by simp
      then show ?thesis
      proof
        assume "(p, e, g) = (p0, e1, g1)"
        with m1 False show ?thesis by simp
      next
        assume "(p, e, g) \<in> set (finditer_from ic r s e1 (e1 = p0))"
        from "1.IH"(2)[OF False Cons x[symmetric] this] b show ?thesis by simp
      qed
    qed
  qed
qed

lemma search_from_mem:
  "search_from ic r s p0 = Some (p, e, g) \<Longrightarrow> (e, g) \<in> set (rmatch ic r s (p, []))"
proof (induction ic r s p0 rule: search_from.induct)
  case (1 ic r s p0)
  show ?case
  proof (cases "length s < p0")
    case True
    with "1.prems" show ?thesis by simp
  next
    case False
    show ?thesis
    proof (cases "rmatch ic r s (p0, [])")
      case Nil
      with False "1.prems" have "search_from ic r s (Suc p0) = Some (p, e, g)" by simp
      from "1.IH"[OF False Nil this] show ?thesis .
    next
      case (Cons x xs)
      with False "1.prems" have "x = (e, g)" and "p = p0" by (auto split: prod.splits)
      with Cons show ?thesis by simp
    qed
  qed
qed

lemma re_match_mem:
  "re_match pat s = Some (p, e, g) \<Longrightarrow> p = 0 \<and> (e, g) \<in> set (rmatch (fst pat) (snd pat) s (0, []))"
  by (auto simp: re_match_def split: list.splits)

section \<open>Facts about the catalogue and the scan\<close>

lemma catalogue_checked:
  "list_all (\<lambda>pat. rematch_safe (snd pat) \<and> groups_checked (fst pat) (snd pat)) regexes"
  by code_simp

lemma regex_gmt_checked: "groups_checked (fst regex_gmt) (snd regex_gmt)"
  by code_simp

lemma group_names_regex_gmt:
  "group_names (snd regex_gmt) = [''gmt_sign'', ''gmt_hours'', ''gmt_minutes'']"
  by code_simp

lemma finditer_mem:
  assumes "(p, e, g) \<in> set (finditer pat s)"
  shows "(e, g) \<in> set (rmatch (fst pat) (snd pat) s (p, [])) \<and> p \<le> e \<and> e \<le> length s"
proof -
  from assms have "(p, e, g) \<in> set (finditer_from (fst pat) (snd pat) s 0 False)"
    by (simp add: finditer_def)
  from finditer_from_mem[OF this]
  have m: "(e, g) \<in> set (rmatch (fst pat) (snd pat) s (p, []))" and pl: "p \<le> length s" by auto
  from rmatch_bounds[OF m] pl show ?thesis using m by (auto simp: max_def split: if_splits)
qed

lemma candidates_of_mem:
  assumes "pc \<in> set (candidates_of pat s)"
  shows "cand_regex pc = pat
       \<and> (\<exists>g. (cand_end pc, g) \<in> set (rmatch (fst pat) (snd pat) s (cand_start pc, [])))
       \<and> match_text pc = slice s (cand_start pc) (cand_end pc)
       \<and> cand_start pc \<le> cand_end pc \<and> cand_end pc \<le> length s"
proof -
  from assms obtain p e g where m: "(p, e, g) \<in> set (finditer pat s)"
    and pc: "pc = \<lparr>cand_start = p, cand_end = e, match_text = slice s p e, cand_regex = pat\<rparr>"
    by (auto simp: candidates_of_def)
  from finditer_mem[OF m] pc show ?thesis by auto
qed

lemma find_candidates_mem:
  assumes "pc \<in> set (find_candidates s)"
  shows "cand_regex pc \<in> set regexes
       \<and> (\<exists>g. (cand_end pc, g)
                \<in> set (rmatch (fst (cand_regex pc)) (snd (cand_regex pc)) s (cand_start pc, [])))
       \<and> match_text pc = slice s (cand_start pc) (cand_end pc)
       \<and> cand_start pc \<le> cand_end pc \<and> cand_end pc \<le> length s"
proof -
  from assms obtain pat where pat: "pat \<in> set regexes" and "pc \<in> set (candidates_of pat s)"
    by (auto simp: find_candidates_def)
  from candidates_of_mem[OF this(2)] pat show ?thesis by auto
qed

lemma candidate_rematches:
  assumes "pc \<in> set (find_candidates s)"
  shows "\<exists>e g. re_match (cand_regex pc) (match_text pc) = Some (0, e, g) \<and> groups_ok g"
proof -
  from find_candidates_mem[OF assms] obtain g0 where
    pat: "cand_regex pc \<in> set regexes"
    and m: "(cand_end pc, g0)
              \<in> set (rmatch (fst (cand_regex pc)) (snd (cand_regex pc)) s (cand_start pc, []))"
    and mt: "match_text pc = slice s (cand_start pc) (cand_end pc)" by auto
  from catalogue_checked pat have safe: "rematch_safe (snd (cand_regex pc))"
    and chk: "groups_checked (fst (cand_regex pc)) (snd (cand_regex pc))"
    by (auto simp: list_all_iff)
  from rematch[OF safe m] mt
  have ne: "rmatch (fst (cand_regex pc)) (snd (cand_regex pc)) (match_text pc) (0, []) \<noteq> []"
    by simp
  then obtain e g rest where
    hd: "rmatch (fst (cand_regex pc)) (snd (cand_regex pc)) (match_text pc) (0, []) = (e, g) # rest"
    by (cases "rmatch (fst (cand_regex pc)) (snd (cand_regex pc)) (match_text pc) (0, [])") auto
  then have "(e, g) \<in> set (rmatch (fst (cand_regex pc)) (snd (cand_regex pc)) (match_text pc) (0, []))"
    by simp
  from groups_checked_sound[OF chk _ this] have "groups_ok g" by (simp add: groups_ok_def)
  moreover from hd have "re_match (cand_regex pc) (match_text pc) = Some (0, e, g)"
    by (simp add: re_match_def)
  ultimately show ?thesis by blast
qed

section \<open>Overlap resolution on a list sorted by length\<close>

definition spans_overlap :: "candidate \<Rightarrow> candidate \<Rightarrow> bool" where
  "spans_overlap a b = (\<not> cand_end b \<le> cand_start a \<and> \<not> cand_start b \<ge> cand_end a)"

definition span_len :: "candidate \<Rightarrow> int" where
  "span_len c = int (cand_end c) - int (cand_start c)"

text \<open>
  Resolution by direct overlap: the first candidate is emitted and removed together with
  the later candidates whose spans overlap its span; the candidates that are left are
  resolved in the same way.
\<close>

fun resolve_direct :: "candidate list \<Rightarrow> candidate list" where
  "resolve_direct [] = []"
| "resolve_direct (c # cs) = c # resolve_direct (filter (\<lambda>d. \<not> spans_overlap c d) cs)"

declare remove_overlap_loop.simps [simp del]

lemma inner_loop_sorted:
  assumes "\<forall>j\<in>set js. j < length indices \<and> indices ! j < length cands
             \<and> cand_start (cands ! (indices ! j)) \<le> cand_end (cands ! (indices ! j))
             \<and> span_len (cands ! (indices ! j)) \<le> l"
    and "s \<le> e"
  shows "inner_loop cands indices js (s, e, l, c, ov)
         = Inr (s, e, l, c,
                ov @ filter (\<lambda>j. \<not> cand_end (cands ! (indices ! j)) \<le> s
                                \<and> \<not> cand_start (cands ! (indices ! j)) \<ge> e) js)"
  using assms
proof (induction js arbitrary: ov)
  case Nil
  then show ?case by simp
next
  case (Cons j js)
  from Cons.prems(1) have j: "j < length indices" "indices ! j < length cands"
    "cand_start (cands ! (indices ! j)) \<le> cand_end (cands ! (indices ! j))"
    "span_len (cands ! (indices ! j)) \<le> l"
    and rest: "\<forall>j\<in>set js. j < length indices \<and> indices ! j < length cands
             \<and> cand_start (cands ! (indices ! j)) \<le> cand_end (cands ! (indices ! j))
             \<and> span_len (cands ! (indices ! j)) \<le> l"
    by simp_all
  note IH = Cons.IH[OF rest Cons.prems(2)]
  from j Cons.prems(2) show ?case
    by (simp add: py_nth_def has_overlap_def Let_def span_len_def IH)
qed

lemma tail_positions: "map ((!) (x # xs)) [Suc 0..<Suc (length xs)] = xs"
proof -
  have "[Suc 0..<Suc (length xs)] = map Suc [0..<length xs]" by (simp add: map_Suc_upt)
  then have "map ((!) (x # xs)) [Suc 0..<Suc (length xs)] = map ((!) xs) [0..<length xs]"
    by (simp add: comp_def)
  then show ?thesis by (simp add: map_nth)
qed

lemma map_filter_positions:
  "map ((!) ys) (filter (\<lambda>k. Q (ys ! k)) ks) = filter Q (map ((!) ys) ks)"
  by (simp add: filter_map comp_def)

lemma remove_overlap_loop_resolve:
  assumes "\<forall>c\<in>set cands. cand_start c \<le> cand_end c"
    and "\<forall>k\<in>set indices. k < length cands"
    and "sorted (map (\<lambda>k. - span_len (cands ! k)) indices)"
  shows "remove_overlap_loop cands indices results
         = Inr (results @ resolve_direct (map ((!) cands) indices))"
  using assms(2,3)
proof (induction "length indices" arbitrary: indices results rule: less_induct)
  case less
  show ?case
  proof (cases indices)
    case Nil
    then show ?thesis by (simp add: remove_overlap_loop.simps[of cands "[]"])
  next
    case (Cons i0 rest)
    define c0 where "c0 = cands ! i0"
    define R where "R = (\<lambda>i. spans_overlap c0 (cands ! i))"
    define n where "n = length indices"
    from Cons less.prems(1) have i0: "i0 < length cands"
      and rest_idx: "\<forall>k\<in>set rest. k < length cands" by simp_all
    from i0 assms(1) have wf0: "cand_start c0 \<le> cand_end c0" by (simp add: c0_def)
    from Cons less.prems(2) have le: "\<forall>k\<in>set rest. span_len (cands ! k) \<le> span_len c0"
      and srt_rest: "sorted (map (\<lambda>k. - span_len (cands ! k)) rest)"
      by (auto simp: c0_def)
    have n: "n = Suc (length rest)" by (simp add: n_def Cons)
    have pos: "\<forall>j\<in>set [Suc 0..<n]. j < length indices \<and> indices ! j < length cands
             \<and> cand_start (cands ! (indices ! j)) \<le> cand_end (cands ! (indices ! j))
             \<and> span_len (cands ! (indices ! j)) \<le> span_len c0"
    proof
      fix j assume "j \<in> set [Suc 0..<n]"
      then have j: "0 < j" "j < Suc (length rest)" using n by auto
      then have "indices ! j = rest ! (j - 1)" by (simp add: Cons nth_Cons')
      moreover from j have "rest ! (j - 1) \<in> set rest" by (simp add: less_Suc_eq_le Suc_le_eq)
      ultimately have mem: "indices ! j \<in> set rest" by simp
      with rest_idx have "indices ! j < length cands" by blast
      moreover from this assms(1)
      have "cand_start (cands ! (indices ! j)) \<le> cand_end (cands ! (indices ! j))" by simp
      moreover from mem le have "span_len (cands ! (indices ! j)) \<le> span_len c0" by blast
      ultimately show "j < length indices \<and> indices ! j < length cands
             \<and> cand_start (cands ! (indices ! j)) \<le> cand_end (cands ! (indices ! j))
             \<and> span_len (cands ! (indices ! j)) \<le> span_len c0"
        using j by (simp add: Cons)
    qed
    have inner: "inner_loop cands indices [Suc 0..<n]
                   (cand_start c0, cand_end c0, span_len c0, i0, [0])
                 = Inr (cand_start c0, cand_end c0, span_len c0, i0,
                        [0] @ filter (\<lambda>j. R (indices ! j)) [Suc 0..<n])"
      using inner_loop_sorted[OF pos wf0, of i0 "[0]"]
      by (simp add: R_def spans_overlap_def)
    define ov where "ov = [0] @ filter (\<lambda>j. R (indices ! j)) [Suc 0..<n]"
    have upt: "[0..<n] = 0 # [Suc 0..<n]" by (subst upt_rec) (simp add: n)
    have keep: "filter (\<lambda>k. k \<notin> set ov) [0..<n] = filter (\<lambda>k. \<not> R (indices ! k)) [Suc 0..<n]"
      unfolding upt ov_def by (auto intro: filter_cong)
    have "map ((!) indices) [Suc 0..<n] = rest"
      using tail_positions[of i0 rest] by (simp add: Cons n)
    then have new: "map ((!) indices) (filter (\<lambda>k. \<not> R (indices ! k)) [Suc 0..<n])
                    = filter (\<lambda>i. \<not> R i) rest"
      using map_filter_positions[of indices "\<lambda>i. \<not> R i" "[Suc 0..<n]"] by simp
    define new_indices where "new_indices = filter (\<lambda>i. \<not> R i) rest"
    have step: "remove_overlap_loop cands indices results =
                 (if length (filter (\<lambda>k. k \<notin> set ov) [0..<n]) = 0
                  then Inr (results @ [c0])
                  else remove_overlap_loop cands
                         (map ((!) indices) (filter (\<lambda>k. k \<notin> set ov) [0..<n]))
                         (results @ [c0]))"
    proof -
      have len: "0 < length indices" by (simp add: Cons)
      have a: "py_nth indices 0 = Inr i0" by (simp add: py_nth_def Cons)
      have b: "py_nth cands i0 = Inr c0" using i0 by (simp add: py_nth_def c0_def)
      have c: "inner_loop cands indices [Suc 0..<length indices]
                 (cand_start c0, cand_end c0, int (cand_end c0) - int (cand_start c0), i0, [0])
               = Inr (cand_start c0, cand_end c0, span_len c0, i0, ov)"
        using inner by (simp only: n_def ov_def span_len_def)
      show ?thesis
        by (subst remove_overlap_loop.simps) (simp only: Let_def len a b c n_def if_True sum.case prod.case)
    qed
    have res: "resolve_direct (map ((!) cands) indices)
               = c0 # resolve_direct (map ((!) cands) new_indices)"
      by (simp add: Cons c0_def new_indices_def R_def filter_map comp_def)
    from keep new
    have newidx: "map ((!) indices) (filter (\<lambda>k. k \<notin> set ov) [0..<n]) = new_indices"
      by (simp add: new_indices_def)
    then have "length (filter (\<lambda>k. k \<notin> set ov) [0..<n]) = length new_indices"
      by (metis length_map)
    then have lenz: "(length (filter (\<lambda>k. k \<notin> set ov) [0..<n]) = 0) = (new_indices = [])"
      by simp
    have step': "remove_overlap_loop cands indices results =
                 (if new_indices = [] then Inr (results @ [c0])
                  else remove_overlap_loop cands new_indices (results @ [c0]))"
      by (simp only: step lenz newidx)
    show ?thesis
    proof (cases "new_indices = []")
      case True
      then show ?thesis by (simp add: step' res)
    next
      case False
      have "length new_indices < length indices"
        by (simp add: new_indices_def Cons less_Suc_eq_le)
      moreover from rest_idx have "\<forall>k\<in>set new_indices. k < length cands"
        by (simp add: new_indices_def)
      moreover from srt_rest have "sorted (map (\<lambda>k. - span_len (cands ! k)) new_indices)"
        unfolding new_indices_def by (rule sorted_filter)
      ultimately have "remove_overlap_loop cands new_indices (results @ [c0])
             = Inr ((results @ [c0]) @ resolve_direct (map ((!) cands) new_indices))"
        by (rule less.hyps)
      with False show ?thesis by (simp add: step' res)
    qed
  qed
qed

lemma remove_overlap_resolve:
  assumes "\<forall>c\<in>set cands. cand_start c \<le> cand_end c"
    and "sorted (map (\<lambda>c. - span_len c) cands)"
  shows "remove_overlap cands = Inr (resolve_direct cands)"
proof -
  have "map (\<lambda>k. - span_len (cands ! k)) [0..<length cands] = map (\<lambda>c. - span_len c) cands"
    by (rule nth_equalityI) simp_all
  with assms(2) have "sorted (map (\<lambda>k. - span_len (cands ! k)) [0..<length cands])" by simp
  from remove_overlap_loop_resolve[OF assms(1) _ this, of "[]"]
  show ?thesis by (simp add: remove_overlap_def map_nth)
qed

lemma resolve_direct_subset: "set (resolve_direct cs) \<subseteq> set cs"
proof (induction cs rule: resolve_direct.induct)
  case 1
  then show ?case by simp
next
  case (2 c cs)
  then show ?case by auto
qed

text \<open>No two of the candidates emitted overlap.\<close>

lemma resolve_direct_disjoint:
  "sorted_wrt (\<lambda>a b. \<not> spans_overlap a b) (resolve_direct cs)"
proof (induction cs rule: resolve_direct.induct)
  case 1
  then show ?case by simp
next
  case (2 c cs)
  have "\<forall>d\<in>set (resolve_direct (filter (\<lambda>d. \<not> spans_overlap c d) cs)). \<not> spans_overlap c d"
  proof
    fix d assume "d \<in> set (resolve_direct (filter (\<lambda>d. \<not> spans_overlap c d) cs))"
    with resolve_direct_subset[of "filter (\<lambda>d. \<not> spans_overlap c d) cs"]
    have "d \<in> set (filter (\<lambda>d. \<not> spans_overlap c d) cs)" by blast
    then show "\<not> spans_overlap c d" by simp
  qed
  with "2.IH" show ?case by (simp only: resolve_direct.simps sorted_wrt.simps simp_thms)
qed

section \<open>The records of the candidates\<close>

definition in_range :: "int option \<Rightarrow> int \<Rightarrow> int \<Rightarrow> bool" where
  "in_range v lo hi = (case v of None \<Rightarrow> True | Some n \<Rightarrow> lo \<le> n \<and> n \<le> hi)"

definition one_of :: "string option \<Rightarrow> string \<Rightarrow> string \<Rightarrow> bool" where
  "one_of v a b = (case v of None \<Rightarrow> True | Some x \<Rightarrow> x = a \<or> x = b)"

definition digits_or_none :: "string option \<Rightarrow> bool" where
  "digits_or_none v = (case v of None \<Rightarrow> True | Some x \<Rightarrow> digit_string x)"

definition locals_ok :: "locals \<Rightarrow> bool" where
  "locals_ok l =
     (in_range (int_hours l) 0 24 \<and> in_range (int_minutes l) 0 59
      \<and> in_range (int_seconds l) 0 60 \<and> digits_or_none (frac_seconds l)
      \<and> one_of (v_am_pm l) STR_AM STR_PM \<and> one_of (v_gmt_delta_sign l) ''+'' ''-''
      \<and> in_range (v_gmt_delta_hours l) 0 24 \<and> in_range (v_gmt_delta_minutes l) 0 59)"

text \<open>The range invariant of a record.\<close>

definition record_ok :: "TimeValue \<Rightarrow> bool" where
  "record_ok r =
     (in_range (hours r) 0 24 \<and> in_range (minutes r) 0 59
      \<and> in_range (seconds r) 0 60 \<and> digits_or_none (fractional_seconds r)
      \<and> one_of (am_pm r) ''am'' ''pm'' \<and> one_of (gmt_delta_sign r) ''+'' ''-''
      \<and> in_range (gmt_delta_hours r) 0 24 \<and> in_range (gmt_delta_minutes r) 0 59)"

lemma for_each_total:
  assumes "\<And>st x. x \<in> set xs \<Longrightarrow> I st \<Longrightarrow> \<exists>st'. f st x = Inr st' \<and> I st'" and "I st"
  shows "\<exists>st'. for_each f xs st = Inr st' \<and> I st'"
  using assms
proof (induction xs arbitrary: st)
  case Nil
  then show ?case by simp
next
  case (Cons x xs)
  from Cons.prems(1)[of x st] Cons.prems(2) obtain st1 where 1: "f st x = Inr st1" and 2: "I st1"
    by auto
  have "\<exists>st'. for_each f xs st1 = Inr st' \<and> I st'"
  proof (rule Cons.IH)
    fix st x assume "x \<in> set xs" and "I st"
    then show "\<exists>st'. f st x = Inr st' \<and> I st'" using Cons.prems(1) by simp
  next
    show "I st1" by (rule 2)
  qed
  with 1 show ?case by simp
qed

lemma for_each_preserves:
  assumes "for_each f xs st = Inr st'"
    and "\<And>x a b. x \<in> set xs \<Longrightarrow> f a x = Inr b \<Longrightarrow> J a \<Longrightarrow> J b"
    and "J st"
  shows "J st'"
  using assms
proof (induction xs arbitrary: st)
  case Nil
  then show ?case by simp
next
  case (Cons x xs)
  from Cons.prems(1) obtain st1 where 1: "f st x = Inr st1" and 2: "for_each f xs st1 = Inr st'"
    by (auto split: sum.splits)
  from Cons.prems(2)[of x st st1] 1 Cons.prems(3) have j1: "J st1" by simp
  show ?case
  proof (rule Cons.IH[OF 2 _ j1])
    fix y a b assume "y \<in> set xs" and "f a y = Inr b" and "J a"
    then show "J b" using Cons.prems(2)[of y a b] by simp
  qed
qed

lemma groups_ok_lookup: "groups_ok g \<Longrightarrow> map_of g k = Some v \<Longrightarrow> group_ok k v"
  by (auto simp: groups_ok_def list_all_iff dest: map_of_SomeD)

lemma groupdict_item:
  "(k, vo) \<in> set (groupdict pat m) \<Longrightarrow> vo = map_of (snd (snd m)) k"
  by (auto simp: groupdict_def)

lemma gmt_item_total:
  assumes "\<And>v. vo = Some v \<Longrightarrow> group_ok k v" and "locals_ok l"
  shows "\<exists>l'. gmt_item l (k, vo) = Inr l' \<and> locals_ok l'"
proof (cases vo)
  case None
  with assms(2) show ?thesis by simp
next
  case (Some v)
  with assms(1) have ok: "group_ok k v" by simp
  show ?thesis
  proof (cases "k = ''gmt_sign''")
    case True
    with ok Some assms(2) show ?thesis
      by (simp add: group_ok_def locals_ok_def one_of_def)
  next
    case ns: False
    show ?thesis
    proof (cases "k = ''gmt_hours''")
      case True
      with ok obtain n where "py_int v = Inr n" "0 \<le> n" "n \<le> 24"
        by (auto simp: group_ok_def int_in_def split: sum.splits)
      with True Some assms(2) show ?thesis
        by (simp add: locals_ok_def in_range_def)
    next
      case nh: False
      show ?thesis
      proof (cases "k = ''gmt_minutes''")
        case True
        with ok obtain n where "py_int v = Inr n" "0 \<le> n" "n \<le> 59"
          by (auto simp: group_ok_def int_in_def split: sum.splits)
        with True Some assms(2) show ?thesis
          by (simp add: locals_ok_def in_range_def)
      next
        case False
        with ns nh Some assms(2) show ?thesis by simp
      qed
    qed
  qed
qed

lemma re_search_groups_ok:
  assumes "re_search regex_gmt v = Some m"
  shows "groups_ok (snd (snd m))"
proof -
  obtain p e g where m: "m = (p, e, g)" by (cases m)
  with assms have "search_from (fst regex_gmt) (snd regex_gmt) v 0 = Some (p, e, g)"
    by (simp add: re_search_def)
  from search_from_mem[OF this]
  have "(e, g) \<in> set (rmatch (fst regex_gmt) (snd regex_gmt) v (p, []))" .
  from groups_checked_sound[OF regex_gmt_checked _ this] m show ?thesis
    by (simp add: groups_ok_def)
qed

lemma gmt_items_total:
  assumes "re_search regex_gmt v = Some m" and "locals_ok l"
  shows "\<exists>l'. for_each gmt_item (groupdict regex_gmt m) l = Inr l' \<and> locals_ok l'"
proof (rule for_each_total[where I = locals_ok])
  fix st x assume x: "x \<in> set (groupdict regex_gmt m)" and st: "locals_ok st"
  obtain k vo where kv: "x = (k, vo)" by (cases x)
  from x kv groupdict_item have vo: "vo = map_of (snd (snd m)) k" by blast
  have "\<And>w. vo = Some w \<Longrightarrow> group_ok k w"
    using groups_ok_lookup[OF re_search_groups_ok[OF assms(1)]] vo by simp
  from gmt_item_total[OF this st] kv show "\<exists>st'. gmt_item st x = Inr st' \<and> locals_ok st'"
    by simp
next
  show "locals_ok l" by (rule assms(2))
qed

lemma locals_ok_gmt_delta: "locals_ok (l\<lparr>gmt_delta := x\<rparr>) = locals_ok l"
  by (simp add: locals_ok_def)

lemma group_item_total:
  assumes "\<And>v. vo = Some v \<Longrightarrow> group_ok k v" and "locals_ok l"
  shows "\<exists>l'. group_item l (k, vo) = Inr l' \<and> locals_ok l'"
proof (cases vo)
  case None
  with assms(2) show ?thesis by simp
next
  case (Some v)
  with assms(1) have ok: "group_ok k v" by simp
  consider "k = ''hours''" | "k = ''minutes''" | "k = ''seconds''" | "k = ''frac''"
    | "k = ''am_pm''" | "k = ''timezone''" | "k = ''gmt_delta''"
    | "k \<noteq> ''hours''" "k \<noteq> ''minutes''" "k \<noteq> ''seconds''" "k \<noteq> ''frac''"
      "k \<noteq> ''am_pm''" "k \<noteq> ''timezone''" "k \<noteq> ''gmt_delta''"
    by blast
  then show ?thesis
  proof cases
    case 1
    with ok obtain n where "py_int v = Inr n" "0 \<le> n" "n \<le> 24"
      by (auto simp: group_ok_def int_in_def split: sum.splits)
    with 1 Some assms(2) show ?thesis by (simp add: locals_ok_def in_range_def)
  next
    case 2
    with ok obtain n where "py_int v = Inr n" "0 \<le> n" "n \<le> 59"
      by (auto simp: group_ok_def int_in_def split: sum.splits)
    with 2 Some assms(2) show ?thesis by (simp add: locals_ok_def in_range_def)
  next
    case 3
    with ok obtain n where "py_int v = Inr n" "0 \<le> n" "n \<le> 60"
      by (auto simp: group_ok_def int_in_def split: sum.splits)
    with 3 Some assms(2) show ?thesis by (simp add: locals_ok_def in_range_def)
  next
    case 4
    with ok have "digit_string (drop 1 v)" by (simp add: group_ok_def)
    with 4 Some assms(2) show ?thesis by (simp add: locals_ok_def digits_or_none_def)
  next
    case 5
    with Some assms(2) show ?thesis by (simp add: locals_ok_def one_of_def)
  next
    case 6
    with Some assms(2) show ?thesis by (simp add: locals_ok_def)
  next
    case 7
    show ?thesis
    proof (cases "re_search regex_gmt v")
      case None
      with 7 Some assms(2) show ?thesis by (simp add: locals_ok_def)
    next
      case (Some m)
      from assms(2) have "locals_ok (l\<lparr>gmt_delta := Some v\<rparr>)" by (simp add: locals_ok_gmt_delta)
      from gmt_items_total[OF Some this] 7 Some \<open>vo = Some v\<close> show ?thesis by simp
    qed
  next
    case 8
    with Some assms(2) show ?thesis by simp
  qed
qed

lemma empty_locals_ok: "locals_ok empty_locals"
  by (simp add: locals_ok_def empty_locals_def in_range_def one_of_def digits_or_none_def)

lemma time_value_total:
  assumes "pc \<in> set (find_candidates s)"
  shows "\<exists>r. time_value pc = Inr r \<and> tv_text r = match_text pc
            \<and> tv_start r = cand_start pc \<and> tv_end r = cand_end pc \<and> record_ok r"
proof -
  from candidate_rematches[OF assms] obtain e g
    where m: "re_match (cand_regex pc) (match_text pc) = Some (0, e, g)" and g: "groups_ok g"
    by blast
  have "\<exists>l. for_each group_item (groupdict (cand_regex pc) (0, e, g)) empty_locals = Inr l
            \<and> locals_ok l"
  proof (rule for_each_total[where I = locals_ok])
    fix st x assume x: "x \<in> set (groupdict (cand_regex pc) (0, e, g))" and st: "locals_ok st"
    obtain k vo where kv: "x = (k, vo)" by (cases x)
    from x kv groupdict_item[of k vo "cand_regex pc" "(0, e, g)"] have vo: "vo = map_of g k"
      by simp
    have "\<And>w. vo = Some w \<Longrightarrow> group_ok k w" using groups_ok_lookup[OF g] vo by simp
    from group_item_total[OF this st] kv
    show "\<exists>st'. group_item st x = Inr st' \<and> locals_ok st'" by simp
  next
    show "locals_ok empty_locals" by (rule empty_locals_ok)
  qed
  then obtain l where l: "for_each group_item (groupdict (cand_regex pc) (0, e, g)) empty_locals = Inr l"
    and ok: "locals_ok l" by blast
  from ok have "record_ok \<lparr>tv_text = match_text pc, tv_start = cand_start pc, tv_end = cand_end pc,
                    hours = int_hours l, minutes = int_minutes l, seconds = int_seconds l,
                    fractional_seconds = frac_seconds l, am_pm = v_am_pm l,
                    timezone = v_timezone l, gmt_delta_sign = v_gmt_delta_sign l,
                    gmt_delta_hours = v_gmt_delta_hours l,
                    gmt_delta_minutes = v_gmt_delta_minutes l\<rparr>"
    by (simp add: record_ok_def locals_ok_def STR_AM_def STR_PM_def)
  with m l show ?thesis by (simp add: time_value_def)
qed

lemma time_values_total:
  assumes "\<And>pc. pc \<in> set pcs \<Longrightarrow> \<exists>r. time_value pc = Inr r \<and> Q pc r"
  shows "\<exists>rs. time_values pcs = Inr rs \<and> list_all2 Q pcs rs"
  using assms
proof (induction pcs)
  case Nil
  then show ?case by simp
next
  case (Cons pc pcs)
  from Cons.prems[of pc] obtain r where r: "time_value pc = Inr r" "Q pc r" by auto
  from Cons.IH Cons.prems obtain rs where rs: "time_values pcs = Inr rs" "list_all2 Q pcs rs"
    by auto
  from r rs show ?case by simp
qed

lemma time_values_list_all2:
  "time_values pcs = Inr rs \<Longrightarrow> list_all2 (\<lambda>pc r. time_value pc = Inr r) pcs rs"
proof (induction pcs arbitrary: rs)
  case Nil
  then show ?case by simp
next
  case (Cons pc pcs)
  then show ?case by (auto split: sum.splits)
qed

section \<open>The pipeline of run\<close>

lemma sort_candidates_sorted: "sorted (map (\<lambda>c. - span_len c) (sort_candidates cs))"
proof -
  have "(\<lambda>x. - (int (cand_end x) - int (cand_start x))) = (\<lambda>c. - span_len c)"
    by (simp add: span_len_def fun_eq_iff)
  then show ?thesis unfolding sort_candidates_def by (metis sorted_sort_key)
qed

lemma set_sort_candidates: "set (sort_candidates cs) = set cs"
  by (simp add: sort_candidates_def)

text \<open>The candidates \<open>run\<close> resolves, and what it makes of them.\<close>

definition sorted_candidates :: "string \<Rightarrow> candidate list" where
  "sorted_candidates sentence = sort_candidates (find_candidates (clean_sentence sentence))"

definition made_from :: "candidate \<Rightarrow> TimeValue \<Rightarrow> bool" where
  "made_from pc r =
     (time_value pc = Inr r \<and> tv_text r = match_text pc \<and> tv_start r = cand_start pc
      \<and> tv_end r = cand_end pc \<and> record_ok r)"

lemma run_decompose:
  "\<exists>rs. remove_overlap (sorted_candidates s) = Inr (resolve_direct (sorted_candidates s))
      \<and> set (resolve_direct (sorted_candidates s)) \<subseteq> set (find_candidates (clean_sentence s))
      \<and> time_values (resolve_direct (sorted_candidates s)) = Inr rs
      \<and> list_all2 made_from (resolve_direct (sorted_candidates s)) rs
      \<and> run s = Inr (sort_key tv_start rs)"
proof -
  let ?cs = "sorted_candidates s"
  have set_cs: "set ?cs = set (find_candidates (clean_sentence s))"
    by (simp add: sorted_candidates_def set_sort_candidates)
  have wf: "\<forall>c\<in>set ?cs. cand_start c \<le> cand_end c"
    using find_candidates_mem set_cs by blast
  have srt: "sorted (map (\<lambda>c. - span_len c) ?cs)"
    unfolding sorted_candidates_def by (rule sort_candidates_sorted)
  have ro: "remove_overlap ?cs = Inr (resolve_direct ?cs)"
    by (rule remove_overlap_resolve[OF wf srt])
  have sub: "set (resolve_direct ?cs) \<subseteq> set (find_candidates (clean_sentence s))"
    using resolve_direct_subset[of ?cs] set_cs by simp
  have "\<exists>rs. time_values (resolve_direct ?cs) = Inr rs
            \<and> list_all2 made_from (resolve_direct ?cs) rs"
  proof (rule time_values_total)
    fix pc assume "pc \<in> set (resolve_direct ?cs)"
    with sub have "pc \<in> set (find_candidates (clean_sentence s))" by blast
    from time_value_total[OF this] show "\<exists>r. time_value pc = Inr r \<and> made_from pc r"
      by (auto simp: made_from_def)
  qed
  then obtain rs where tv: "time_values (resolve_direct ?cs) = Inr rs"
    and la: "list_all2 made_from (resolve_direct ?cs) rs" by blast
  from ro tv have "run s = Inr (sort_key tv_start rs)"
    by (simp add: run_def sorted_candidates_def[symmetric] Let_def)
  with ro sub tv la show ?thesis by blast
qed

text \<open>Two records whose spans do not overlap.\<close>

definition disjoint_spans :: "TimeValue \<Rightarrow> TimeValue \<Rightarrow> bool" where
  "disjoint_spans a b = (tv_end b \<le> tv_start a \<or> tv_end a \<le> tv_start b)"

lemma sorted_wrt_insort_key:
  assumes "\<forall>y\<in>set xs. P x y \<and> P y x" and "sorted_wrt P xs"
  shows "sorted_wrt P (insort_key f x xs)"
  using assms
proof (induction xs)
  case Nil
  then show ?case by simp
next
  case (Cons y ys)
  then show ?case by (auto simp: set_insort_key)
qed

lemma sorted_wrt_sort_key:
  assumes "\<And>a b. P a b \<Longrightarrow> P b a" and "sorted_wrt P xs"
  shows "sorted_wrt P (sort_key f xs)"
  using assms(2)
proof (induction xs)
  case Nil
  then show ?case by simp
next
  case (Cons x xs)
  then have 1: "\<forall>y\<in>set xs. P x y" and 2: "sorted_wrt P xs" by simp_all
  from 1 assms(1) have "\<forall>y\<in>set (sort_key f xs). P x y \<and> P y x" by auto
  from sorted_wrt_insort_key[OF this Cons.IH[OF 2]] show ?case by simp
qed

lemma sorted_wrt_list_all2:
  assumes "list_all2 Q xs ys" and "sorted_wrt P xs"
    and "\<And>x y x' y'. Q x y \<Longrightarrow> Q x' y' \<Longrightarrow> P x x' \<Longrightarrow> P' y y'"
  shows "sorted_wrt P' ys"
proof -
  from assms(1) have len: "length xs = length ys"
    and q: "\<And>i. i < length xs \<Longrightarrow> Q (xs ! i) (ys ! i)"
    by (auto simp: list_all2_conv_all_nth)
  show ?thesis
    unfolding sorted_wrt_iff_nth_less
  proof (intro allI impI)
    fix i j assume ij: "i < j" and j: "j < length ys"
    with len assms(2) have "P (xs ! i) (xs ! j)" by (simp add: sorted_wrt_iff_nth_less)
    moreover from ij j len have "Q (xs ! i) (ys ! i)" "Q (xs ! j) (ys ! j)" by (auto intro: q)
    ultimately show "P' (ys ! i) (ys ! j)" using assms(3) by blast
  qed
qed

lemma run_disjoint:
  "\<exists>rs. run s = Inr rs \<and> sorted_wrt disjoint_spans rs"
proof -
  from run_decompose[of s] obtain rs0
    where la: "list_all2 made_from (resolve_direct (sorted_candidates s)) rs0"
      and r: "run s = Inr (sort_key tv_start rs0)" by blast
  have "sorted_wrt disjoint_spans rs0"
  proof (rule sorted_wrt_list_all2[OF la resolve_direct_disjoint])
    fix x y x' y' assume "made_from x y" "made_from x' y'" "\<not> spans_overlap x x'"
    then show "disjoint_spans y y'"
      by (auto simp: made_from_def spans_overlap_def disjoint_spans_def)
  qed
  then have "sorted_wrt disjoint_spans (sort_key tv_start rs0)"
    by (rule sorted_wrt_sort_key[rotated]) (auto simp: disjoint_spans_def)
  with r show ?thesis by blast
qed

lemma run_record_source:
  assumes "run s = Inr rs" and "r \<in> set rs"
  shows "\<exists>pc. pc \<in> set (resolve_direct (sorted_candidates s))
             \<and> pc \<in> set (find_candidates (clean_sentence s)) \<and> made_from pc r"
proof -
  from run_decompose[of s] obtain rs0
    where sub: "set (resolve_direct (sorted_candidates s)) \<subseteq> set (find_candidates (clean_sentence s))"
      and la: "list_all2 made_from (resolve_direct (sorted_candidates s)) rs0"
      and r: "run s = Inr (sort_key tv_start rs0)" by blast
  from r assms have "r \<in> set rs0" by simp
  then obtain i where i: "i < length rs0" "rs0 ! i = r" by (auto simp: in_set_conv_nth)
  with la have "made_from (resolve_direct (sorted_candidates s) ! i) r"
    and "i < length (resolve_direct (sorted_candidates s))"
    by (auto simp: list_all2_conv_all_nth)
  with sub show ?thesis by (metis nth_mem subsetD)
qed

lemma run_eval_chain:
  "run ''09:30:00+05:30:15'' =
     Inr [\<lparr>tv_text = ''09:30:00+05:30'', tv_start = 0, tv_end = 14, hours = Some 9,
           minutes = Some 30, seconds = Some 0, fractional_seconds = None, am_pm = None,
           timezone = None, gmt_delta_sign = Some ''+'', gmt_delta_hours = Some 5,
           gmt_delta_minutes = Some 30\<rparr>,
          \<lparr>tv_text = ''15'', tv_start = 15, tv_end = 17, hours = Some 15, minutes = None,
           seconds = None, fractional_seconds = None, am_pm = None, timezone = None,
           gmt_delta_sign = None, gmt_delta_hours = None, gmt_delta_minutes = None\<rparr>]"
  by code_simp

text \<open>
  C1. For every input string, the spans of any two distinct records returned by run do
  not overlap: one of the two ends where the other starts, or before. Touching spans
  are allowed.
\<close>

theorem run_spans_do_not_overlap:
  "\<exists>rs. run s = Inr rs
      \<and> (\<forall>i j. i < j \<and> j < length rs
            \<longrightarrow> tv_end (rs ! j) \<le> tv_start (rs ! i) \<or> tv_end (rs ! i) \<le> tv_start (rs ! j))"
proof -
  from run_disjoint[of s] obtain rs where r: "run s = Inr rs"
    and d: "sorted_wrt disjoint_spans rs" by blast
  from d have "\<forall>i j. i < j \<and> j < length rs
            \<longrightarrow> tv_end (rs ! j) \<le> tv_start (rs ! i) \<or> tv_end (rs ! i) \<le> tv_start (rs ! j)"
    by (simp add: sorted_wrt_iff_nth_less disjoint_spans_def)
  with r show ?thesis by blast
qed

theorem run_spans_do_not_overlap_witness:
  "(case run ''09:30:00+05:30:15'' of
      Inl e \<Rightarrow> False
    | Inr rs \<Rightarrow> length rs = 2 \<and> (0::nat) < 1 \<and> 1 < length rs
               \<and> (tv_end (rs ! 1) \<le> tv_start (rs ! 0) \<or> tv_end (rs ! 0) \<le> tv_start (rs ! 1)))"
proof -
  from run_spans_do_not_overlap[of "''09:30:00+05:30:15''"] obtain rs
    where r: "run ''09:30:00+05:30:15'' = Inr rs"
      and d: "\<forall>i j. i < j \<and> j < length rs
            \<longrightarrow> tv_end (rs ! j) \<le> tv_start (rs ! i) \<or> tv_end (rs ! i) \<le> tv_start (rs ! j)"
    by blast
  from r[unfolded run_eval_chain] have len: "length rs = 2" by auto
  with d have "tv_end (rs ! 1) \<le> tv_start (rs ! 0) \<or> tv_end (rs ! 0) \<le> tv_start (rs ! 1)"
    by simp
  with r len show ?thesis by simp
qed

end
